theory Spec2Isabelle
  imports Main
begin

section \<open>Memoir: a shallow embedding of the persistence core\<close>

text \<open>
  The development models the TypeScript sources of the Memoir plugin: the message
  tracker (src/chunks/tracker.ts), the chunk service and tree engine
  (src/chunks/index.ts, src/chunks/tree.ts), the chunk and memory repositories
  (src/chunks/repository.ts, src/memory/repository.ts), the migrator
  (src/db/migrations/index.ts) and the search compiler and keyword detector
  (src/memory/search.ts, src/memory/keywords.ts).

  Conventions. A SQLite table is the list of its rows in rowid order. JSON columns
  are held decoded (the round trip through JSON.stringify and JSON.parse is not
  modelled). Every call of Date.now() and every freshly minted id is an argument of
  the function that makes the call. A thrown exception is the \<open>Inl\<close> branch of a sum; a
  function that can write to the database returns the database next to its outcome,
  so that a rollback is visible as "the same database comes back".
\<close>

subsection \<open>Data model (src/types.ts)\<close>

datatype Role = User | Assistant

datatype PartType = TextPart | ToolPart | FilePart | ReasoningPart

text \<open>
  A message part as it exists at run time. The declared interface has the fields
  type, text, tool, input and output; the tracker adds the own property
  \<^verbatim>\<open>_partId\<close> through a type cast, so the run-time object carries one more optional
  field. The tool input (an arbitrary JSON object) is kept as its JSON text.
\<close>

record ChunkMessagePart =
  part_type :: PartType
  part_text :: "string option"
  part_tool :: "string option"
  part_input :: "string option"
  part_output :: "string option"
  part_partId :: "string option"

record TrackedMessage =
  msg_id :: string
  msg_role :: Role
  msg_parts :: "ChunkMessagePart list"
  msg_timestamp :: int

record ChunkMessage =
  cm_id :: string
  cm_role :: Role
  cm_parts :: "ChunkMessagePart list"
  cm_timestamp :: int

datatype ChunkOutcome = Success | Partial | Failed | Ongoing

record ChunkMetadata =
  files_modified :: "string list option"
  tools_used :: "string list option"
  outcome :: "ChunkOutcome option"

record ChunkContent =
  cc_messages :: "ChunkMessage list"
  cc_metadata :: ChunkMetadata

datatype ChunkStatus = Active | Compacted | Archived

text \<open>
  A row of table \<^verbatim>\<open>chunks\<close>. The API object \<^verbatim>\<open>Chunk\<close> has the same fields in camel
  case; with the JSON columns held decoded, \<^verbatim>\<open>rowToChunk\<close> is the identity. The depth is
  the integer that the JavaScript Number \<^verbatim>\<open>row.depth\<close> holds; arithmetic on it is that of
  Numbers (\<open>number_add\<close> below), not that of the integers.
\<close>

record ChunkRow =
  c_id :: string
  c_session_id :: string
  c_parent_id :: "string option"
  c_depth :: int
  c_child_refs :: "string list option"
  c_content :: ChunkContent
  c_summary :: "string option"
  c_status :: ChunkStatus
  c_created_at :: int
  c_finalized_at :: "int option"
  c_compacted_at :: "int option"
  c_embedding :: "nat list option"

type_synonym chunks_table = "ChunkRow list"

datatype error =
    EmptyChunkList
  | ChunksNotFound "string list"
  | ConstraintViolation
  | NullDereference

subsection \<open>Message tracker (src/chunks/tracker.ts)\<close>

text \<open>
  The two maps of the class. Messages and parts are values here: the tracker is taken
  to own the objects it stores (no object is tracked under two keys, and no caller
  changes an object after handing it over), so that an assignment to a stored object
  is an update of the one list that holds it.
\<close>

record MessageTracker =
  sessions :: "string \<rightharpoonup> TrackedMessage list"
  currentChunkIds :: "string \<rightharpoonup> string"

definition newMessageTracker :: MessageTracker where
  "newMessageTracker = \<lparr> sessions = Map.empty, currentChunkIds = Map.empty \<rparr>"

text \<open>\<^verbatim>\<open>Array.prototype.findIndex\<close>: the first index whose element passes, or -1.\<close>

fun findIndex_from :: "('a \<Rightarrow> bool) \<Rightarrow> 'a list \<Rightarrow> int \<Rightarrow> int" where
  "findIndex_from P [] i = - 1"
| "findIndex_from P (x # xs) i = (if P x then i else findIndex_from P xs (i + 1))"

definition findIndex :: "('a \<Rightarrow> bool) \<Rightarrow> 'a list \<Rightarrow> int" where
  "findIndex P xs = findIndex_from P xs 0"

text \<open>
  \<^verbatim>\<open>Array.prototype.find\<close> returns a reference to the first element that passes; the
  callers below then assign to a property of that object. \<open>mutate_first\<close> is that
  in-place assignment seen from the array.
\<close>

fun mutate_first :: "('a \<Rightarrow> bool) \<Rightarrow> ('a \<Rightarrow> 'a) \<Rightarrow> 'a list \<Rightarrow> 'a list" where
  "mutate_first P f [] = []"
| "mutate_first P f (x # xs) = (if P x then f x # xs else x # mutate_first P f xs)"

definition getMessages :: "MessageTracker \<Rightarrow> string \<Rightarrow> TrackedMessage list" where
  "getMessages t sessionId = (case sessions t sessionId of None \<Rightarrow> [] | Some ms \<Rightarrow> ms)"

definition trackMessage :: "MessageTracker \<Rightarrow> string \<Rightarrow> TrackedMessage \<Rightarrow> MessageTracker" where
  "trackMessage t sessionId message =
     (let messages = (case sessions t sessionId of None \<Rightarrow> [] | Some ms \<Rightarrow> ms);
          existingIndex = findIndex (\<lambda>m. msg_id m = msg_id message) messages;
          messages' = (if existingIndex \<ge> 0 then messages[nat existingIndex := message]
                       else messages @ [message])
      in t\<lparr> sessions := (sessions t)(sessionId \<mapsto> messages') \<rparr>)"

definition clearSession :: "MessageTracker \<Rightarrow> string \<Rightarrow> MessageTracker" where
  "clearSession t sessionId =
     t\<lparr> sessions := (sessions t)(sessionId := None),
        currentChunkIds := (currentChunkIds t)(sessionId := None) \<rparr>"

definition getCurrentChunkId :: "MessageTracker \<Rightarrow> string \<Rightarrow> string option" where
  "getCurrentChunkId t sessionId = currentChunkIds t sessionId"

definition setCurrentChunkId :: "MessageTracker \<Rightarrow> string \<Rightarrow> string \<Rightarrow> MessageTracker" where
  "setCurrentChunkId t sessionId chunkId =
     t\<lparr> currentChunkIds := (currentChunkIds t)(sessionId \<mapsto> chunkId) \<rparr>"

definition hasMessages :: "MessageTracker \<Rightarrow> string \<Rightarrow> bool" where
  "hasMessages t sessionId =
     (case sessions t sessionId of None \<Rightarrow> False | Some ms \<Rightarrow> length ms > 0)"

definition getMessageCount :: "MessageTracker \<Rightarrow> string \<Rightarrow> nat" where
  "getMessageCount t sessionId =
     (case sessions t sessionId of None \<Rightarrow> 0 | Some ms \<Rightarrow> length ms)"

text \<open>
  \<open>ensureMessage\<close>: the last argument is the value of \<^verbatim>\<open>Date.now()\<close>. When the message
  exists the array is already the one stored in the map, so the role correction is an
  assignment in place.
\<close>

definition ensureMessage ::
  "MessageTracker \<Rightarrow> string \<Rightarrow> string \<Rightarrow> Role \<Rightarrow> int \<Rightarrow> MessageTracker" where
  "ensureMessage t sessionId messageId role now =
     (let messages = (case sessions t sessionId of None \<Rightarrow> [] | Some ms \<Rightarrow> ms)
      in case List.find (\<lambda>m. msg_id m = messageId) messages of
           None \<Rightarrow>
             t\<lparr> sessions := (sessions t)(sessionId \<mapsto>
                  messages @ [\<lparr> msg_id = messageId, msg_role = role, msg_parts = [],
                                msg_timestamp = now \<rparr>]) \<rparr>
         | Some existing \<Rightarrow>
             if msg_role existing \<noteq> role
             then t\<lparr> sessions := (sessions t)(sessionId \<mapsto>
                       mutate_first (\<lambda>m. msg_id m = messageId) (\<lambda>m. m\<lparr> msg_role := role \<rparr>) messages) \<rparr>
             else t)"

text \<open>
  \<open>addPart\<close>: \<^verbatim>\<open>{ ...part, _partId: partId }\<close> is a copy of the part with the private id
  set. When the message exists its parts array is updated in place.
\<close>

definition addPart ::
  "MessageTracker \<Rightarrow> string \<Rightarrow> string \<Rightarrow> string \<Rightarrow> ChunkMessagePart \<Rightarrow> int \<Rightarrow> MessageTracker" where
  "addPart t sessionId messageId partId part now =
     (let messages = (case sessions t sessionId of None \<Rightarrow> [] | Some ms \<Rightarrow> ms)
      in case List.find (\<lambda>m. msg_id m = messageId) messages of
           None \<Rightarrow>
             t\<lparr> sessions := (sessions t)(sessionId \<mapsto>
                  messages @ [\<lparr> msg_id = messageId, msg_role = Assistant,
                                msg_parts = [part\<lparr> part_partId := Some partId \<rparr>],
                                msg_timestamp = now \<rparr>]) \<rparr>
         | Some message \<Rightarrow>
             (let partsWithIds = msg_parts message;
                  existingIndex = findIndex (\<lambda>p. part_partId p = Some partId) partsWithIds;
                  parts' = (if existingIndex \<ge> 0
                            then partsWithIds[nat existingIndex := part\<lparr> part_partId := Some partId \<rparr>]
                            else partsWithIds @ [part\<lparr> part_partId := Some partId \<rparr>])
              in t\<lparr> sessions := (sessions t)(sessionId \<mapsto>
                      mutate_first (\<lambda>m. msg_id m = messageId) (\<lambda>m. m\<lparr> msg_parts := parts' \<rparr>) messages) \<rparr>))"

text \<open>The calls that can reach the tracker of a session while it buffers messages.\<close>

datatype tracker_op =
    TrackMessage string TrackedMessage
  | EnsureMessage string string Role int
  | AddPart string string string ChunkMessagePart int

fun apply_op :: "MessageTracker \<Rightarrow> tracker_op \<Rightarrow> MessageTracker" where
  "apply_op t (TrackMessage s m) = trackMessage t s m"
| "apply_op t (EnsureMessage s i r n) = ensureMessage t s i r n"
| "apply_op t (AddPart s i p x n) = addPart t s i p x n"

text \<open>The message id an operation presents to a session, if it addresses that session.\<close>

fun op_message_id :: "string \<Rightarrow> tracker_op \<Rightarrow> string list" where
  "op_message_id s (TrackMessage s' m) = (if s' = s then [msg_id m] else [])"
| "op_message_id s (EnsureMessage s' i r n) = (if s' = s then [i] else [])"
| "op_message_id s (AddPart s' i p x n) = (if s' = s then [i] else [])"

text \<open>The part id an \<open>addPart\<close> presents to a message of a session.\<close>

fun op_part_id :: "string \<Rightarrow> string \<Rightarrow> tracker_op \<Rightarrow> string list" where
  "op_part_id s i (AddPart s' i' p x n) = (if s' = s \<and> i' = i then [p] else [])"
| "op_part_id s i _ = []"

fun is_addPart :: "tracker_op \<Rightarrow> bool" where
  "is_addPart (AddPart s i p x n) = True"
| "is_addPart _ = False"

text \<open>First-insert order: every element once, at the place of its first occurrence.\<close>

fun first_occurrences :: "'a list \<Rightarrow> 'a list \<Rightarrow> 'a list" where
  "first_occurrences seen [] = seen"
| "first_occurrences seen (x # xs) =
     (if x \<in> set seen then first_occurrences seen xs else first_occurrences (seen @ [x]) xs)"

definition parts_of :: "MessageTracker \<Rightarrow> string \<Rightarrow> string \<Rightarrow> ChunkMessagePart list" where
  "parts_of t s i =
     (case List.find (\<lambda>m. msg_id m = i) (getMessages t s) of None \<Rightarrow> [] | Some m \<Rightarrow> msg_parts m)"

text \<open>\<open>trackMessage\<close> replaces a whole message, parts included: the one call that resets a part list.\<close>

fun tracks :: "string \<Rightarrow> string \<Rightarrow> tracker_op \<Rightarrow> bool" where
  "tracks s i (TrackMessage s' m) = (s' = s \<and> msg_id m = i)"
| "tracks s i _ = False"

text \<open>A small tracker state used to instantiate the theorems below.\<close>

definition demo_part :: "string \<Rightarrow> ChunkMessagePart" where
  "demo_part txt = \<lparr> part_type = TextPart, part_text = Some txt, part_tool = None,
      part_input = None, part_output = None, part_partId = None \<rparr>"

definition demo_message :: "string \<Rightarrow> string \<Rightarrow> TrackedMessage" where
  "demo_message i txt = \<lparr> msg_id = i, msg_role = User, msg_parts = [demo_part txt], msg_timestamp = 1 \<rparr>"

definition demo_tracker :: MessageTracker where
  "demo_tracker =
     addPart (addPart (trackMessage (trackMessage newMessageTracker ''S'' (demo_message ''m1'' ''a''))
       ''S'' (demo_message ''m2'' ''b'')) ''S'' ''m3'' ''p1'' (demo_part ''c'') 2)
       ''S'' ''m3'' ''p2'' (demo_part ''d'') 3"


subsection \<open>Chunk repository (src/chunks/repository.ts)\<close>

text \<open>\<^verbatim>\<open>SELECT * FROM chunks WHERE id = ?\<close> with \<^verbatim>\<open>.get\<close>: the first matching row.\<close>

definition getById :: "chunks_table \<Rightarrow> string \<Rightarrow> ChunkRow option" where
  "getById db i = List.find (\<lambda>r. c_id r = i) db"

record CreateChunkInput =
  in_sessionId :: string
  in_content :: ChunkContent
  in_parentId :: "string option"
  in_depth :: "int option"
  in_summary :: "string option"

text \<open>
  \<open>create\<close>: the arguments after the input are the minted id and the clock. The
  INSERT is refused when the id is already a primary key of the table, or when the
  parent id names no row (the store enables foreign keys); the exception leaves the
  table as it was.
\<close>

definition create :: "chunks_table \<Rightarrow> CreateChunkInput \<Rightarrow> string \<Rightarrow> int \<Rightarrow> (error + ChunkRow) \<times> chunks_table" where
  "create db input newId now =
     (let row = \<lparr> c_id = newId, c_session_id = in_sessionId input,
                  c_parent_id = in_parentId input,
                  c_depth = (case in_depth input of None \<Rightarrow> 0 | Some d \<Rightarrow> d),
                  c_child_refs = None, c_content = in_content input,
                  c_summary = in_summary input, c_status = Active, c_created_at = now,
                  c_finalized_at = None, c_compacted_at = None, c_embedding = None \<rparr>
      in if newId \<in> set (map c_id db) then (Inl ConstraintViolation, db)
         else if (case in_parentId input of None \<Rightarrow> False | Some p \<Rightarrow> p \<notin> set (map c_id db))
         then (Inl ConstraintViolation, db)
         else (Inr row, db @ [row]))"

record UpdateChunkInput =
  up_content :: "ChunkContent option"
  up_summary :: "string option"
  up_status :: "ChunkStatus option"
  up_childRefs :: "string list option"
  up_finalizedAt :: "int option"
  up_compactedAt :: "int option"

text \<open>The assignments of the dynamic UPDATE, one per field that is not undefined.\<close>

definition chunk_updates :: "UpdateChunkInput \<Rightarrow> (ChunkRow \<Rightarrow> ChunkRow) list" where
  "chunk_updates input =
     (case up_content input of None \<Rightarrow> [] | Some v \<Rightarrow> [\<lambda>r. r\<lparr> c_content := v \<rparr>]) @
     (case up_summary input of None \<Rightarrow> [] | Some v \<Rightarrow> [\<lambda>r. r\<lparr> c_summary := Some v \<rparr>]) @
     (case up_status input of None \<Rightarrow> [] | Some v \<Rightarrow> [\<lambda>r. r\<lparr> c_status := v \<rparr>]) @
     (case up_childRefs input of None \<Rightarrow> [] | Some v \<Rightarrow> [\<lambda>r. r\<lparr> c_child_refs := Some v \<rparr>]) @
     (case up_finalizedAt input of None \<Rightarrow> [] | Some v \<Rightarrow> [\<lambda>r. r\<lparr> c_finalized_at := Some v \<rparr>]) @
     (case up_compactedAt input of None \<Rightarrow> [] | Some v \<Rightarrow> [\<lambda>r. r\<lparr> c_compacted_at := Some v \<rparr>])"

definition update :: "chunks_table \<Rightarrow> string \<Rightarrow> UpdateChunkInput \<Rightarrow> ChunkRow option \<times> chunks_table" where
  "update db i input =
     (case getById db i of
        None \<Rightarrow> (None, db)
      | Some existing \<Rightarrow>
          (let updates = chunk_updates input
           in if length updates = 0 then (Some existing, db)
              else (let db' = map (\<lambda>r. if c_id r = i then fold (\<lambda>u. u) updates r else r) db
                    in (getById db' i, db'))))"

subsection \<open>Tree engine: compaction (src/chunks/tree.ts)\<close>

record CompactResult =
  summaryChunk :: ChunkRow
  compactedChunks :: "ChunkRow list"

text \<open>
  JavaScript Numbers are IEEE 754 doubles: 53 significant bits. \<open>number_exponent m\<close>
  is the number of low bits that a magnitude \<open>m\<close> has beyond 53, and \<open>to_number x\<close> is
  the integer \<open>x\<close> rounded to the nearest double, a tie going to the even significand.
  Every integer of magnitude up to \<open>2 ^ 53\<close> is a double; \<open>2 ^ 53 + 1\<close> is not, and
  rounds to \<open>2 ^ 53\<close>. (A double's range ends near \<open>2 ^ 1024\<close>; the depth column holds
  64-bit integers, far below.)
\<close>

function number_exponent :: "nat \<Rightarrow> nat" where
  "number_exponent m = (if m < 2 ^ 53 then 0 else Suc (number_exponent (m div 2)))"
  by pat_completeness auto
termination
  by (relation "measure (\<lambda>m. m)") auto

definition to_number :: "int \<Rightarrow> int" where
  "to_number x =
     (let m = nat \<bar>x\<bar>;
          e = number_exponent m;
          q = m div 2 ^ e;
          r = m mod 2 ^ e;
          q' = (if 2 * r > 2 ^ e \<or> (2 * r = 2 ^ e \<and> odd q) then q + 1 else q)
      in sgn x * int (q' * 2 ^ e))"

text \<open>\<^verbatim>\<open>a + b\<close> on two Numbers that hold integers: the exact sum, rounded.\<close>

definition number_add :: "int \<Rightarrow> int \<Rightarrow> int" where
  "number_add a b = to_number (a + b)"

text \<open>\<^verbatim>\<open>Math.max(...xs)\<close> on a list with a first element.\<close>

fun math_max :: "int \<Rightarrow> int list \<Rightarrow> int" where
  "math_max m [] = m"
| "math_max m (d # ds) = math_max (max m d) ds"

text \<open>
  The assignment of \<^verbatim>\<open>UPDATE chunks SET parent_id = ?, status = 'compacted',
  compacted_at = ? WHERE id = ?\<close> on a row.
\<close>

definition mark_compacted :: "string \<Rightarrow> int \<Rightarrow> ChunkRow \<Rightarrow> ChunkRow" where
  "mark_compacted summaryId now r =
     r\<lparr> c_parent_id := Some summaryId, c_status := Compacted, c_compacted_at := Some now \<rparr>"

text \<open>
  \<open>compactChunks\<close>: the two arguments after the summary text are the id minted by
  \<^verbatim>\<open>generateChunkId()\<close> and the clock. \<^verbatim>\<open>SELECT ... WHERE id IN (...)\<close> yields the rows
  whose id is one of the arguments, each row once; SQL leaves the order of the answer
  open (SQLite walks the primary-key index), the model lists the rows in table order,
  and no statement below reads that order. The summary depth is \<^verbatim>\<open>maxDepth + 1\<close> on
  Numbers. Inside the transaction the INSERT
  of the summary is refused when the minted id is already a primary key; the
  exception rolls the transaction back. The UPDATE statements touch the rows with the
  given id; the summary row exists by then, so the foreign key holds. The branch for
  an empty row list cannot be reached (the row count equals the non-zero argument
  count there); JavaScript would compute \<^verbatim>\<open>-Infinity\<close>. Reading the summary back
  after the commit cannot miss either; \<^verbatim>\<open>rowToChunk(null)\<close> would throw a TypeError.
\<close>

definition compactChunks ::
  "chunks_table \<Rightarrow> string \<Rightarrow> string list \<Rightarrow> string \<Rightarrow> string \<Rightarrow> int
     \<Rightarrow> (error + CompactResult) \<times> chunks_table" where
  "compactChunks db sessionId chunkIds summary summaryId now =
     (if length chunkIds = 0 then (Inl EmptyChunkList, db)
      else
        (let rows = filter (\<lambda>r. c_id r \<in> set chunkIds) db
         in if length rows \<noteq> length chunkIds
            then (let foundIds = set (map c_id rows);
                      missingIds = filter (\<lambda>i. i \<notin> foundIds) chunkIds
                  in (Inl (ChunksNotFound missingIds), db))
            else
              (case map c_depth rows of
                 [] \<Rightarrow> (Inl ConstraintViolation, db)
               | d # ds \<Rightarrow>
                  (let maxDepth = math_max d ds;
                       summaryDepth = number_add maxDepth 1;
                       summaryContent = \<lparr> cc_messages = [],
                          cc_metadata = \<lparr> files_modified = None, tools_used = None, outcome = None \<rparr> \<rparr>;
                       summaryRow = \<lparr> c_id = summaryId, c_session_id = sessionId, c_parent_id = None,
                          c_depth = summaryDepth, c_child_refs = Some chunkIds,
                          c_content = summaryContent, c_summary = Some summary, c_status = Active,
                          c_created_at = now, c_finalized_at = None, c_compacted_at = None,
                          c_embedding = None \<rparr>
                   in if summaryId \<in> set (map c_id db) then (Inl ConstraintViolation, db)
                      else
                        (let inserted = db @ [summaryRow];
                             db' = fold (\<lambda>chunkId tbl.
                                      map (\<lambda>r. if c_id r = chunkId
                                                 then mark_compacted summaryId now r
                                                 else r) tbl) chunkIds inserted
                         in case List.find (\<lambda>r. c_id r = summaryId) db' of
                              None \<Rightarrow> (Inl NullDereference, db')
                            | Some summaryRow' \<Rightarrow>
                               (Inr \<lparr> summaryChunk = summaryRow',
                                      compactedChunks = filter (\<lambda>r. c_id r \<in> set chunkIds) db' \<rparr>, db'))))))"


text \<open>Three active chunks of one session, of depths 0, 1 and 2.\<close>

definition demo_chunk :: "string \<Rightarrow> int \<Rightarrow> ChunkRow" where
  "demo_chunk i d =
     \<lparr> c_id = i, c_session_id = ''S'', c_parent_id = None, c_depth = d, c_child_refs = None,
       c_content = \<lparr> cc_messages = [],
                     cc_metadata = \<lparr> files_modified = None, tools_used = None, outcome = None \<rparr> \<rparr>,
       c_summary = None, c_status = Active, c_created_at = 10, c_finalized_at = None,
       c_compacted_at = None, c_embedding = None \<rparr>"

definition demo_db :: chunks_table where
  "demo_db = [demo_chunk ''ch_a'' 0, demo_chunk ''ch_b'' 1, demo_chunk ''ch_c'' 2]"


subsection \<open>Chunk service: finalize (src/chunks/index.ts)\<close>

text \<open>JavaScript truthiness of an optional string: present and not empty.\<close>

definition truthy :: "string option \<Rightarrow> bool" where
  "truthy v = (case v of None \<Rightarrow> False | Some s \<Rightarrow> s \<noteq> [])"

text \<open>\<^verbatim>\<open>Set.prototype.add\<close> on a set kept in insertion order.\<close>

definition set_add :: "string list \<Rightarrow> string \<Rightarrow> string list" where
  "set_add xs x = (if x \<in> set xs then xs else xs @ [x])"

definition collect_tools :: "TrackedMessage list \<Rightarrow> string list" where
  "collect_tools messages =
     fold (\<lambda>message acc.
        fold (\<lambda>part acc'. case part_tool part of
                            None \<Rightarrow> acc'
                          | Some tool \<Rightarrow> if part_type part = ToolPart \<and> truthy (Some tool)
                                         then set_add acc' tool else acc')
          (msg_parts message) acc) messages []"

definition collect_files :: "TrackedMessage list \<Rightarrow> string list" where
  "collect_files messages =
     fold (\<lambda>message acc.
        fold (\<lambda>part acc'. case part_text part of
                            None \<Rightarrow> acc'
                          | Some txt \<Rightarrow> if part_type part = FilePart \<and> truthy (Some txt)
                                        then set_add acc' txt else acc')
          (msg_parts message) acc) messages []"

text \<open>
  \<open>finalize\<close>: after the session id come the id minted by the repository's \<open>create\<close>,
  its clock, and the clock of \<open>finalize\<close> itself. The content's messages are built by
  \<^verbatim>\<open>messages.map((m) => ({ id: m.id, role: m.role, parts: m.parts, timestamp:
  m.timestamp }))\<close>: the parts array of each tracked message is handed over as it is,
  and \<^verbatim>\<open>JSON.stringify\<close> writes every own property of every part. An exception of
  \<open>create\<close> leaves the function before the tracker is touched.
\<close>

definition finalize ::
  "chunks_table \<Rightarrow> MessageTracker \<Rightarrow> string \<Rightarrow> string \<Rightarrow> int \<Rightarrow> int
     \<Rightarrow> (error + ChunkRow option) \<times> chunks_table \<times> MessageTracker" where
  "finalize db tracker sessionId newId createdNow now =
     (let messages = getMessages tracker sessionId
      in if length messages = 0 then (Inr None, db, tracker)
         else
          (let toolsUsed = collect_tools messages;
               filesModified = collect_files messages;
               content = \<lparr> cc_messages =
                             map (\<lambda>m. \<lparr> cm_id = msg_id m, cm_role = msg_role m,
                                         cm_parts = msg_parts m, cm_timestamp = msg_timestamp m \<rparr>) messages,
                           cc_metadata =
                             \<lparr> files_modified = (if length filesModified > 0 then Some filesModified else None),
                               tools_used = (if length toolsUsed > 0 then Some toolsUsed else None),
                               outcome = None \<rparr> \<rparr>
           in case create db \<lparr> in_sessionId = sessionId, in_content = content, in_parentId = None,
                                in_depth = None, in_summary = None \<rparr> newId createdNow of
                (Inl e, db1) \<Rightarrow> (Inl e, db1, tracker)
              | (Inr chunk, db1) \<Rightarrow>
                 (case update db1 (c_id chunk)
                         \<lparr> up_content = None, up_summary = None, up_status = None, up_childRefs = None,
                           up_finalizedAt = Some now, up_compactedAt = None \<rparr> of
                    (finalized, db2) \<Rightarrow>
                      (let tracker1 = clearSession tracker sessionId;
                           tracker2 = (case finalized of
                                         None \<Rightarrow> tracker1
                                       | Some f \<Rightarrow> setCurrentChunkId tracker1 sessionId (c_id f))
                       in (Inr finalized, db2, tracker2)))))"

text \<open>The private part ids found in a stored chunk content, message by message.\<close>

definition stored_part_ids :: "ChunkContent \<Rightarrow> string option list list" where
  "stored_part_ids content = map (\<lambda>m. map part_partId (cm_parts m)) (cc_messages content)"

definition stored_ids_of_table :: "chunks_table \<Rightarrow> string option list list list" where
  "stored_ids_of_table db = map (\<lambda>r. stored_part_ids (c_content r)) db"

text \<open>The row \<open>create\<close> inserts for an input with no parent, depth or summary.\<close>

definition fresh_row :: "string \<Rightarrow> string \<Rightarrow> ChunkContent \<Rightarrow> int \<Rightarrow> ChunkRow" where
  "fresh_row newId s c createdNow =
     \<lparr> c_id = newId, c_session_id = s, c_parent_id = None, c_depth = 0,
       c_child_refs = None, c_content = c, c_summary = None, c_status = Active,
       c_created_at = createdNow, c_finalized_at = None, c_compacted_at = None, c_embedding = None \<rparr>"

subsection \<open>Memory repository (src/memory/repository.ts)\<close>

datatype MemoryType = Preference | Pattern | Gotcha | Fact | Learned

datatype MemorySource = FromUser | FromCompaction | FromAuto

record MemoryRow =
  m_id :: string
  m_content :: string
  m_type :: MemoryType
  m_tags :: "string list option"
  m_source :: "MemorySource option"
  m_created_at :: int
  m_updated_at :: "int option"
  m_embedding :: "nat list option"

record Memory =
  mem_id :: string
  mem_content :: string
  mem_type :: MemoryType
  mem_tags :: "string list option"
  mem_source :: MemorySource
  mem_createdAt :: int
  mem_updatedAt :: "int option"
  mem_embedding :: "nat list option"

type_synonym memories_table = "MemoryRow list"

definition rowToMemory :: "MemoryRow \<Rightarrow> Memory" where
  "rowToMemory row =
     \<lparr> mem_id = m_id row, mem_content = m_content row, mem_type = m_type row,
       mem_tags = m_tags row,
       mem_source = (case m_source row of None \<Rightarrow> FromUser | Some s \<Rightarrow> s),
       mem_createdAt = m_created_at row, mem_updatedAt = m_updated_at row,
       mem_embedding = m_embedding row \<rparr>"

definition memory_getById :: "memories_table \<Rightarrow> string \<Rightarrow> Memory option" where
  "memory_getById db i = map_option rowToMemory (List.find (\<lambda>r. m_id r = i) db)"

record UpdateMemoryInput =
  um_content :: "string option"
  um_type :: "MemoryType option"
  um_tags :: "string list option"

text \<open>
  \<open>memory_update\<close> is \<^verbatim>\<open>MemoryRepository.update\<close>; the last argument is the clock. The
  list \<open>updates\<close> holds one assignment per SET fragment, in the order the source pushes
  them: the fragment for \<^verbatim>\<open>updated_at\<close> is pushed without a condition, and the test of
  the list's length comes after it.
\<close>

definition memory_updates :: "UpdateMemoryInput \<Rightarrow> int \<Rightarrow> (MemoryRow \<Rightarrow> MemoryRow) list" where
  "memory_updates input now =
     (case um_content input of None \<Rightarrow> [] | Some v \<Rightarrow> [\<lambda>r. r\<lparr> m_content := v \<rparr>]) @
     (case um_type input of None \<Rightarrow> [] | Some v \<Rightarrow> [\<lambda>r. r\<lparr> m_type := v \<rparr>]) @
     (case um_tags input of None \<Rightarrow> [] | Some v \<Rightarrow> [\<lambda>r. r\<lparr> m_tags := Some v \<rparr>]) @
     [\<lambda>r. r\<lparr> m_updated_at := Some now \<rparr>]"

definition memory_update ::
  "memories_table \<Rightarrow> string \<Rightarrow> UpdateMemoryInput \<Rightarrow> int \<Rightarrow> Memory option \<times> memories_table" where
  "memory_update db i input now =
     (case memory_getById db i of
        None \<Rightarrow> (None, db)
      | Some existing \<Rightarrow>
          (let updates = memory_updates input now
           in if length updates = 0 then (Some existing, db)
              else (let db' = map (\<lambda>r. if m_id r = i then fold (\<lambda>u. u) updates r else r) db
                    in (memory_getById db' i, db'))))"

text \<open>A stored memory that was never updated.\<close>

definition demo_memory :: MemoryRow where
  "demo_memory =
     \<lparr> m_id = ''mem_1'', m_content = ''Always use strict mode'', m_type = Preference,
       m_tags = None, m_source = Some FromUser, m_created_at = 1000, m_updated_at = None,
       m_embedding = None \<rparr>"

definition no_fields :: UpdateMemoryInput where
  "no_fields = \<lparr> um_content = None, um_type = None, um_tags = None \<rparr>"

subsection \<open>Migrator (src/db/migrations/index.ts)\<close>

datatype MigrationSubsystem = MemorySubsystem | HistorySubsystem

record Migration =
  mig_version :: int
  mig_filename :: string
  mig_description :: string
  mig_sql :: string
  mig_subsystem :: MigrationSubsystem

record AppliedMigration =
  am_version :: int
  am_filename :: string
  am_applied_at :: int
  am_checksum :: string

text \<open>
  The database as the migrator sees it: per subsystem the tracking table
  \<^verbatim>\<open>x_<subsystem>_migrations\<close> (absent, or its rows), and everything else.
\<close>

record 'd Database =
  tracking :: "MigrationSubsystem \<Rightarrow> AppliedMigration list option"
  schema :: 'd

datatype migration_error =
    InvalidMigrationFilename string
  | SqlError string
  | PrimaryKeyViolation int

definition ensureMigrationTable :: "'d Database \<Rightarrow> MigrationSubsystem \<Rightarrow> 'd Database" where
  "ensureMigrationTable db subsystem =
     (case tracking db subsystem of
        None \<Rightarrow> db\<lparr> tracking := (tracking db)(subsystem := Some []) \<rparr>
      | Some rows \<Rightarrow> db)"

definition is_digit :: "char \<Rightarrow> bool" where
  "is_digit c = (c \<in> set ''0123456789'')"

text \<open>\<^verbatim>\<open>parseInt(s, 10)\<close> on a string of decimal digits.\<close>

definition parseInt :: "string \<Rightarrow> int" where
  "parseInt s = foldl (\<lambda>acc c. 10 * acc + (int (of_char c) - 48)) 0 s"

text \<open>
  \<open>parseFilename\<close>: the pattern \<^verbatim>\<open>/^(\d{4})_(.+)\.sql$/\<close> asks for four digits, an
  underscore, a non-empty body without line terminators, and the suffix \<^verbatim>\<open>.sql\<close> at
  the end of the string; the body is everything in between.
\<close>

definition parseFilename :: "string \<Rightarrow> migration_error + (int \<times> string)" where
  "parseFilename filename =
     (let n = length filename;
          body = take (n - 9) (drop 5 filename)
      in if n \<ge> 10 \<and> list_all is_digit (take 4 filename) \<and> filename ! 4 = CHR ''_'' \<and>
            drop (n - 4) filename = ''.sql'' \<and>
            list_all (\<lambda>c. c \<noteq> CHR 0x0A \<and> c \<noteq> CHR 0x0D) body
         then Inr (parseInt (take 4 filename),
                   map (\<lambda>c. if c = CHR ''_'' then CHR '' '' else c) body)
         else Inl (InvalidMigrationFilename filename))"

text \<open>
  \<open>getMigrations\<close>: the embedded migrations of a subsystem (module \<^verbatim>\<open>embedded.ts\<close>, a
  generated table of file name and SQL text per subsystem) are an argument. A file
  name that does not parse throws. \<^verbatim>\<open>Array.prototype.sort\<close> is stable.
\<close>

fun parse_all :: "MigrationSubsystem \<Rightarrow> (string \<times> string) list \<Rightarrow> migration_error + Migration list" where
  "parse_all subsystem [] = Inr []"
| "parse_all subsystem ((filename, sql) # rest) =
     (case parseFilename filename of
        Inl e \<Rightarrow> Inl e
      | Inr (version, description) \<Rightarrow>
          (case parse_all subsystem rest of
             Inl e \<Rightarrow> Inl e
           | Inr ms \<Rightarrow> Inr (\<lparr> mig_version = version, mig_filename = filename,
                                mig_description = description, mig_sql = sql,
                                mig_subsystem = subsystem \<rparr> # ms)))"

definition getMigrations ::
  "(MigrationSubsystem \<Rightarrow> (string \<times> string) list option) \<Rightarrow> MigrationSubsystem
     \<Rightarrow> migration_error + Migration list" where
  "getMigrations embedded subsystem =
     (case embedded subsystem of
        None \<Rightarrow> Inr []
      | Some entries \<Rightarrow>
          (case parse_all subsystem entries of
             Inl e \<Rightarrow> Inl e
           | Inr migrations \<Rightarrow> Inr (sort_key mig_version migrations)))"

text \<open>
  \<open>getCurrentVersion\<close>: \<^verbatim>\<open>SELECT MAX(version)\<close> is NULL on an empty table, and the query
  throws when the table is absent; both give 0.
\<close>

definition getCurrentVersion :: "'d Database \<Rightarrow> MigrationSubsystem \<Rightarrow> int" where
  "getCurrentVersion db subsystem =
     (case tracking db subsystem of
        None \<Rightarrow> 0
      | Some [] \<Rightarrow> 0
      | Some (r # rs) \<Rightarrow> fold max (map am_version rs) (am_version r))"

text \<open>
  One migration inside its transaction: run the SQL, then record the version. The
  effect of a migration's SQL on the database is an argument (\<open>run_sql\<close>), as is the
  checksum function (\<^verbatim>\<open>Bun.hash\<close>) and the clock that fills \<^verbatim>\<open>applied_at\<close>. The INSERT
  throws when the tracking table is absent or already holds the version. An exception
  rolls the transaction back.
\<close>

definition apply_migration ::
  "(string \<Rightarrow> 'd Database \<Rightarrow> migration_error + 'd Database) \<Rightarrow> (string \<Rightarrow> string) \<Rightarrow> int
     \<Rightarrow> MigrationSubsystem \<Rightarrow> Migration \<Rightarrow> 'd Database \<Rightarrow> migration_error + 'd Database" where
  "apply_migration run_sql computeChecksum now subsystem migration db =
     (case run_sql (mig_sql migration) db of
        Inl e \<Rightarrow> Inl e
      | Inr db1 \<Rightarrow>
          (case tracking db1 subsystem of
             None \<Rightarrow> Inl (SqlError ''no such table'')
           | Some rows \<Rightarrow>
               if mig_version migration \<in> set (map am_version rows)
               then Inl (PrimaryKeyViolation (mig_version migration))
               else Inr (db1\<lparr> tracking := (tracking db1)(subsystem \<mapsto>
                      rows @ [\<lparr> am_version = mig_version migration,
                                 am_filename = mig_filename migration,
                                 am_applied_at = now,
                                 am_checksum = computeChecksum (mig_sql migration) \<rparr>]) \<rparr>)))"

text \<open>The loop of \<open>runMigrations\<close>: the database and the counter are the loop state.\<close>

fun run_pending ::
  "(string \<Rightarrow> 'd Database \<Rightarrow> migration_error + 'd Database) \<Rightarrow> (string \<Rightarrow> string) \<Rightarrow> int
     \<Rightarrow> MigrationSubsystem \<Rightarrow> int \<Rightarrow> Migration list \<Rightarrow> 'd Database \<Rightarrow> nat
     \<Rightarrow> (migration_error + nat) \<times> 'd Database" where
  "run_pending run_sql computeChecksum now subsystem currentVersion [] db applied = (Inr applied, db)"
| "run_pending run_sql computeChecksum now subsystem currentVersion (migration # rest) db applied =
     (if mig_version migration \<le> currentVersion
      then run_pending run_sql computeChecksum now subsystem currentVersion rest db applied
      else (case apply_migration run_sql computeChecksum now subsystem migration db of
              Inl e \<Rightarrow> (Inl e, db)
            | Inr db' \<Rightarrow>
                run_pending run_sql computeChecksum now subsystem currentVersion rest db' (applied + 1)))"

definition runMigrations ::
  "(string \<Rightarrow> 'd Database \<Rightarrow> migration_error + 'd Database) \<Rightarrow> (string \<Rightarrow> string)
     \<Rightarrow> (MigrationSubsystem \<Rightarrow> (string \<times> string) list option) \<Rightarrow> int
     \<Rightarrow> 'd Database \<Rightarrow> MigrationSubsystem \<Rightarrow> (migration_error + nat) \<times> 'd Database" where
  "runMigrations run_sql computeChecksum embedded now db subsystem =
     (let db0 = ensureMigrationTable db subsystem;
          currentVersion = getCurrentVersion db0 subsystem
      in case getMigrations embedded subsystem of
           Inl e \<Rightarrow> (Inl e, db0)
         | Inr migrations \<Rightarrow>
             run_pending run_sql computeChecksum now subsystem currentVersion migrations db0 0)"

text \<open>
  The property the embedded migrations have, and that idempotence rests on: a
  migration's SQL does not write a tracking table.
\<close>

definition keeps_tracking :: "(string \<Rightarrow> 'd Database \<Rightarrow> migration_error + 'd Database) \<Rightarrow> bool" where
  "keeps_tracking run_sql = (\<forall>sql db db'. run_sql sql db = Inr db' \<longrightarrow> tracking db' = tracking db)"

text \<open>A sample: two embedded migrations of the memory subsystem, SQL that only extends the schema.\<close>

definition demo_embedded :: "MigrationSubsystem \<Rightarrow> (string \<times> string) list option" where
  "demo_embedded subsystem =
     (case subsystem of
        MemorySubsystem \<Rightarrow> Some [(''0002_add_index.sql'', ''CREATE INDEX i''),
                                 (''0001_initial_memories_table.sql'', ''CREATE TABLE memories'')]
      | HistorySubsystem \<Rightarrow> Some [(''0001_initial_chunks_table.sql'', ''CREATE TABLE chunks'')])"

definition demo_run_sql :: "string \<Rightarrow> string list Database \<Rightarrow> migration_error + string list Database" where
  "demo_run_sql sql db = Inr (db\<lparr> schema := schema db @ [sql] \<rparr>)"

definition demo_checksum :: "string \<Rightarrow> string" where
  "demo_checksum sql = rev sql"

definition demo_database :: "string list Database" where
  "demo_database = \<lparr> tracking = (\<lambda>s. None), schema = [] \<rparr>"

subsection \<open>Tree engine: ancestors (src/chunks/tree.ts)\<close>

text \<open>
  \<open>getAncestors\<close> runs the query

  \<^verbatim>\<open>WITH RECURSIVE ancestors AS (
     SELECT ..., 0 as level FROM chunks WHERE id = ?
     UNION ALL
     SELECT c...., a.level + 1 FROM chunks c JOIN ancestors a ON c.id = a.parent_id)
   SELECT * FROM ancestors ORDER BY level DESC\<close>

  SQLite evaluates a recursive common table expression with a queue: the rows of the
  initial select are queued; then, while the queue is not empty, one row is taken from
  it, added to the result, and the recursive select is run with that row as the only
  row of the recursive table, its rows joining the queue. With UNION ALL nothing is
  discarded, so on a cycle of parent links the loop never ends: the function is
  partial, and not returning is the value \<open>None\<close>. A row whose \<^verbatim>\<open>parent_id\<close> is NULL
  joins with nothing.
\<close>

type_synonym ChunkWithLevel = "ChunkRow \<times> int"

partial_function (option) cte_ancestors ::
  "chunks_table \<Rightarrow> ChunkWithLevel list \<Rightarrow> ChunkWithLevel list \<Rightarrow> ChunkWithLevel list option" where
  "cte_ancestors db queue result =
     (case queue of
        [] \<Rightarrow> Some result
      | a # rest \<Rightarrow>
          cte_ancestors db
            (rest @ map (\<lambda>c. (c, snd a + 1)) (filter (\<lambda>c. c_parent_id (fst a) = Some (c_id c)) db))
            (result @ [a]))"

declare cte_ancestors.simps [code]

text \<open>\<^verbatim>\<open>ORDER BY level DESC\<close>, as a stable sort on the negated level.\<close>

definition order_by_level_desc :: "ChunkWithLevel list \<Rightarrow> ChunkWithLevel list" where
  "order_by_level_desc rows = sort_key (\<lambda>r. - snd r) rows"

definition getAncestors :: "chunks_table \<Rightarrow> string \<Rightarrow> ChunkWithLevel list option" where
  "getAncestors db chunkId =
     map_option order_by_level_desc
       (cte_ancestors db (map (\<lambda>c. (c, 0)) (filter (\<lambda>c. c_id c = chunkId) db)) [])"

text \<open>
  The specification's reading, independent of the query: the chain found by following
  \<^verbatim>\<open>parent_id\<close> from a chunk until a chunk without parent (or a parent id that names no
  row) is reached; it is empty when the start id names no row.
\<close>

inductive parent_chain :: "chunks_table \<Rightarrow> string \<Rightarrow> ChunkRow list \<Rightarrow> bool" where
  absent: "getById db i = None \<Longrightarrow> parent_chain db i []"
| root: "getById db i = Some c \<Longrightarrow> c_parent_id c = None \<Longrightarrow> parent_chain db i [c]"
| step: "getById db i = Some c \<Longrightarrow> c_parent_id c = Some p \<Longrightarrow> parent_chain db p cs
           \<Longrightarrow> parent_chain db i (c # cs)"

code_pred parent_chain .

text \<open>Level \<open>l\<close> at the first chunk of a chain, one more at each next.\<close>

fun with_levels :: "int \<Rightarrow> ChunkRow list \<Rightarrow> ChunkWithLevel list" where
  "with_levels l [] = []"
| "with_levels l (c # cs) = (c, l) # with_levels (l + 1) cs"

text \<open>A summary over the three sample chunks, itself under a second summary.\<close>

definition demo_tree :: chunks_table where
  "demo_tree =
     [(demo_chunk ''ch_a'' 0)\<lparr> c_parent_id := Some ''ch_s'' \<rparr>,
      (demo_chunk ''ch_b'' 1)\<lparr> c_parent_id := Some ''ch_s'' \<rparr>,
      (demo_chunk ''ch_s'' 2)\<lparr> c_parent_id := Some ''ch_t'' \<rparr>,
      demo_chunk ''ch_t'' 3]"

subsection \<open>Search compiler (src/memory/search.ts, src/chunks/index.ts)\<close>

text \<open>
  Strings. A JavaScript string is a sequence of UTF-16 code units; here it is a list
  of \<open>char\<close>. The patterns below tell apart word characters, the backtick and, for
  the keywords, ASCII letters, the space and the apostrophe; without the \<^verbatim>\<open>u\<close> flag
  every code unit from 128 on is none of these and is equal, with or without the \<^verbatim>\<open>i\<close>
  flag, to itself only. The characters from 128 to 255 stand for all of them.
\<close>

text \<open>\<^verbatim>\<open>\w\<close> without the \<^verbatim>\<open>u\<close> flag: \<^verbatim>\<open>[A-Za-z0-9_]\<close>.\<close>

definition is_word_char :: "char \<Rightarrow> bool" where
  "is_word_char c =
     (let n = (of_char c :: nat)
      in (48 \<le> n \<and> n \<le> 57) \<or> (65 \<le> n \<and> n \<le> 90) \<or> n = 95 \<or> (97 \<le> n \<and> n \<le> 122))"

text \<open>
  The assertion \<^verbatim>\<open>\b\<close> at index \<open>i\<close> of \<open>s\<close>: exactly one of the characters before and
  at \<open>i\<close> is a word character (a missing character is not one).
\<close>

definition word_boundary :: "string \<Rightarrow> nat \<Rightarrow> bool" where
  "word_boundary s i =
     ((i > 0 \<and> i - 1 < length s \<and> is_word_char (s ! (i - 1))) \<noteq> (i < length s \<and> is_word_char (s ! i)))"

text \<open>
  One attempt of \<^verbatim>\<open>/\b\w+\b/\<close> at index \<open>i\<close>: the boundary, then the greedy \<^verbatim>\<open>\w+\<close> takes
  the whole run of word characters and gives characters back one at a time until the
  closing \<^verbatim>\<open>\b\<close> holds. The result is the end index of the match.
\<close>

definition match_word_at :: "string \<Rightarrow> nat \<Rightarrow> nat option" where
  "match_word_at s i =
     (if word_boundary s i
      then (let run = length (takeWhile is_word_char (drop i s))
            in map_option (\<lambda>n. i + n) (List.find (\<lambda>n. word_boundary s (i + n)) (rev [1..<run + 1])))
      else None)"

text \<open>
  \<^verbatim>\<open>String.prototype.match\<close> with the \<^verbatim>\<open>g\<close> flag: the matches from left to right, each
  search starting where the last match ended (one further after an empty match);
  \<^verbatim>\<open>null\<close> instead of an empty array.
\<close>

function match_words_from :: "string \<Rightarrow> nat \<Rightarrow> string list" where
  "match_words_from s i =
     (if i > length s then []
      else (case match_word_at s i of
              None \<Rightarrow> match_words_from s (i + 1)
            | Some e \<Rightarrow>
                if e \<le> i then take (e - i) (drop i s) # match_words_from s (i + 1)
                else take (e - i) (drop i s) # match_words_from s e))"
  by pat_completeness auto
termination
  by (relation "measure (\<lambda>(s, i). length s + 1 - i)") auto

definition match_words :: "string \<Rightarrow> string list option" where
  "match_words s = (case match_words_from s 0 of [] \<Rightarrow> None | ws \<Rightarrow> Some ws)"

text \<open>
  \<^verbatim>\<open>toUpperCase\<close>, as far as the compiler uses it: on strings of word characters,
  where it changes the letters a to z only.
\<close>

definition upper_ascii :: "char \<Rightarrow> char" where
  "upper_ascii c =
     (case map_of (zip ''abcdefghijklmnopqrstuvwxyz'' ''ABCDEFGHIJKLMNOPQRSTUVWXYZ'') c of
        None \<Rightarrow> c | Some u \<Rightarrow> u)"

definition toUpperCase :: "string \<Rightarrow> string" where
  "toUpperCase w = map upper_ascii w"

definition ftsOperators :: "string set" where
  "ftsOperators = {''AND'', ''OR'', ''NOT'', ''NEAR''}"

text \<open>\<^verbatim>\<open>Array.prototype.join\<close>.\<close>

fun join :: "string \<Rightarrow> string list \<Rightarrow> string" where
  "join sep [] = []"
| "join sep [w] = w"
| "join sep (w # ws) = w @ sep @ join sep ws"

definition escapeFtsQuery :: "string \<Rightarrow> string" where
  "escapeFtsQuery query =
     (case match_words query of
        None \<Rightarrow> []
      | Some words \<Rightarrow>
          if length words = 0 then []
          else (let validWords = filter (\<lambda>w. length w \<ge> 2 \<and> toUpperCase w \<notin> ftsOperators) words
                in if length validWords = 0 then []
                   else join '' OR '' (map (\<lambda>w. ''\"'' @ w @ ''\"'') validWords)))"

text \<open>
  \<open>searchMemories\<close>. The database is the function that answers the one ranked query
  (MATCH expression, optional type filter, limit). The second component of the result
  lists the MATCH expressions of the queries that were executed.
\<close>

record SearchResult =
  sr_memory :: Memory
  sr_rank :: int

record SearchOptions =
  so_limit :: "int option"
  so_type :: "MemoryType option"

definition searchMemories ::
  "(string \<Rightarrow> MemoryType option \<Rightarrow> int \<Rightarrow> (MemoryRow \<times> int) list) \<Rightarrow> string \<Rightarrow> SearchOptions option
     \<Rightarrow> SearchResult list \<times> string list" where
  "searchMemories db query options =
     (if query = [] then ([], [])
      else
        (let limit = (case options of None \<Rightarrow> 20
                      | Some opts \<Rightarrow> (case so_limit opts of None \<Rightarrow> 20 | Some l \<Rightarrow> l));
             type = (case options of None \<Rightarrow> None | Some opts \<Rightarrow> so_type opts);
             escapedQuery = escapeFtsQuery query
         in if escapedQuery = [] then ([], [])
            else (map (\<lambda>(row, rank). \<lparr> sr_memory = rowToMemory row, sr_rank = rank \<rparr>)
                    (db escapedQuery type limit),
                  [escapedQuery])))"

text \<open>
  \<^verbatim>\<open>ChunkService.search\<close> repeats the compiler inline, after a test of
  \<^verbatim>\<open>query.trim()\<close>. \<^verbatim>\<open>trim\<close> removes white space and line terminators at both ends.
\<close>

definition is_white_space :: "char \<Rightarrow> bool" where
  "is_white_space c = ((of_char c :: nat) \<in> {9, 10, 11, 12, 13, 32, 160})"

definition trim :: "string \<Rightarrow> string" where
  "trim s = rev (dropWhile is_white_space (rev (dropWhile is_white_space s)))"

record ChunkSearchOptions =
  cso_sessionId :: "string option"
  cso_depth :: "int option"
  cso_limit :: "int option"

record ChunkSearchResult =
  csr_chunk :: ChunkRow
  csr_rank :: int

definition chunk_search ::
  "(string \<Rightarrow> string option \<Rightarrow> int option \<Rightarrow> int \<Rightarrow> (ChunkRow \<times> int) list) \<Rightarrow> int \<Rightarrow> string
     \<Rightarrow> ChunkSearchOptions option \<Rightarrow> ChunkSearchResult list \<times> string list" where
  "chunk_search db maxSearchResults query options =
     (if query = [] \<or> trim query = [] then ([], [])
      else
        (let limit = (case options of None \<Rightarrow> maxSearchResults
                      | Some opts \<Rightarrow> (case cso_limit opts of None \<Rightarrow> maxSearchResults | Some l \<Rightarrow> l))
         in case match_words query of
              None \<Rightarrow> ([], [])
            | Some words \<Rightarrow>
                if length words = 0 then ([], [])
                else (let validWords = filter (\<lambda>w. length w \<ge> 2 \<and> toUpperCase w \<notin> ftsOperators) words
                      in if length validWords = 0 then ([], [])
                         else (let ftsQuery = join '' OR '' (map (\<lambda>w. ''\"'' @ w @ ''\"'') validWords);
                                   sessionId = (case options of None \<Rightarrow> None
                                                | Some opts \<Rightarrow> (case cso_sessionId opts of
                                                      None \<Rightarrow> None
                                                    | Some sid \<Rightarrow> if sid = [] then None else Some sid));
                                   depth = (case options of None \<Rightarrow> None | Some opts \<Rightarrow> cso_depth opts)
                               in (map (\<lambda>(row, rank). \<lparr> csr_chunk = row, csr_rank = rank \<rparr>)
                                     (db ftsQuery sessionId depth limit),
                                   [ftsQuery])))))"

text \<open>
  The compiler in the specification's words: the maximal runs of word characters, in
  order; without the runs shorter than two characters and the runs that are one of
  the reserved words in any letter case; each in double quotes; joined by \<open>'' OR ''\<close>.
\<close>

fun runs_from :: "string \<Rightarrow> string \<Rightarrow> string list" where
  "runs_from cur [] = (if cur = [] then [] else [cur])"
| "runs_from cur (c # cs) =
     (if is_word_char c then runs_from (cur @ [c]) cs
      else (if cur = [] then [] else [cur]) @ runs_from [] cs)"

definition word_runs :: "string \<Rightarrow> string list" where
  "word_runs s = runs_from [] s"

definition lower_ascii :: "char \<Rightarrow> char" where
  "lower_ascii c =
     (case map_of (zip ''ABCDEFGHIJKLMNOPQRSTUVWXYZ'' ''abcdefghijklmnopqrstuvwxyz'') c of
        None \<Rightarrow> c | Some l \<Rightarrow> l)"

definition reserved_word :: "string \<Rightarrow> bool" where
  "reserved_word w = (map lower_ascii w \<in> {''and'', ''or'', ''not'', ''near''})"

definition kept_runs :: "string \<Rightarrow> string list" where
  "kept_runs s = filter (\<lambda>w. \<not> length w < 2 \<and> \<not> reserved_word w) (word_runs s)"

fun or_joined :: "string list \<Rightarrow> string" where
  "or_joined [] = []"
| "or_joined [w] = ''\"'' @ w @ ''\"''"
| "or_joined (w # ws) = ''\"'' @ w @ ''\"'' @ '' OR '' @ or_joined ws"

definition compiled_expression :: "string \<Rightarrow> string" where
  "compiled_expression s = or_joined (kept_runs s)"

text \<open>
  Positions of a string seen from its runs: where a run of word characters starts, and
  the positions strictly inside one.
\<close>

definition run_start :: "string \<Rightarrow> nat \<Rightarrow> bool" where
  "run_start s i = (i < length s \<and> is_word_char (s ! i) \<and> (i = 0 \<or> \<not> is_word_char (s ! (i - 1))))"

definition inside_run :: "string \<Rightarrow> nat \<Rightarrow> bool" where
  "inside_run s i = (i > 0 \<and> i < length s \<and> is_word_char (s ! (i - 1)) \<and> is_word_char (s ! i))"

text \<open>A database answering every query with one fixed row, to watch what is executed.\<close>

definition demo_fts :: "string \<Rightarrow> MemoryType option \<Rightarrow> int \<Rightarrow> (MemoryRow \<times> int) list" where
  "demo_fts expr ty limit = [(demo_memory, - 1)]"

definition demo_chunk_fts :: "string \<Rightarrow> string option \<Rightarrow> int option \<Rightarrow> int \<Rightarrow> (ChunkRow \<times> int) list" where
  "demo_chunk_fts expr sid depth limit = [(demo_chunk ''ch_a'' 0, - 1)]"

subsection \<open>Keyword detector (src/memory/keywords.ts)\<close>

definition DEFAULT_KEYWORDS :: "string list" where
  "DEFAULT_KEYWORDS =
     [''remember'', ''memorize'', ''save this'', ''note this'', ''keep in mind'',
      ''don't forget'', ''learn this'', ''store this'', ''record this'', ''make a note'',
      ''take note'', ''jot down'', ''commit to memory'', ''never forget'', ''always remember'']"

definition backtick :: char where
  "backtick = CHR 0x60"

definition fence :: string where
  "fence = [backtick, backtick, backtick]"

text \<open>
  One attempt of \<^verbatim>\<open>/```[\s\S]*?```/\<close> at the start of \<open>s\<close>: three backticks, then the lazy
  \<^verbatim>\<open>[\s\S]*?\<close> takes no character at first and one more at a time until three
  backticks follow. The result is the length of the match.
\<close>

definition match_fence_at :: "string \<Rightarrow> nat option" where
  "match_fence_at s =
     (if take 3 s = fence
      then map_option (\<lambda>n. 3 + n + 3) (List.find (\<lambda>n. take 3 (drop (3 + n) s) = fence) [0..<length s])
      else None)"

text \<open>
  One attempt of \<^verbatim>\<open>/`[^`]+`/\<close> at the start of \<open>s\<close>: a backtick, then the greedy \<^verbatim>\<open>[^`]+\<close>
  takes the whole run of characters other than the backtick (line breaks included) and
  gives characters back one at a time until a backtick follows.
\<close>

definition match_inline_at :: "string \<Rightarrow> nat option" where
  "match_inline_at s =
     (case s of
        [] \<Rightarrow> None
      | c # rest \<Rightarrow>
          if c = backtick
          then (let run = length (takeWhile (\<lambda>x. x \<noteq> backtick) rest)
                in map_option (\<lambda>n. 1 + n + 1)
                     (List.find (\<lambda>n. n < length rest \<and> rest ! n = backtick) (rev [1..<run + 1])))
          else None)"

text \<open>
  \<^verbatim>\<open>String.prototype.replace\<close> with a global pattern and the empty replacement, for a
  pattern that looks at nothing before the position it is tried at: the text is
  scanned from the left; where the pattern matches, the match is dropped and the scan
  goes on behind it; elsewhere the character is kept. (After an empty match the scan
  moves on by one character; the two patterns here have no empty match.)
\<close>

function replace_all :: "(string \<Rightarrow> nat option) \<Rightarrow> string \<Rightarrow> string" where
  "replace_all m s =
     (case s of
        [] \<Rightarrow> []
      | c # cs \<Rightarrow>
          (case m s of
             None \<Rightarrow> c # replace_all m cs
           | Some n \<Rightarrow> if n = 0 then c # replace_all m cs else replace_all m (drop n s)))"
  by pat_completeness auto
termination
  by (relation "measure (\<lambda>(m, s). length s)") auto

definition removeCodeBlocks :: "string \<Rightarrow> string" where
  "removeCodeBlocks text = replace_all match_inline_at (replace_all match_fence_at text)"

text \<open>
  \<open>buildKeywordPattern\<close> escapes every character of a keyword that is special in a
  pattern, so each alternative \<^verbatim>\<open>\bkeyword\b\<close> matches the keyword literally, between
  two word boundaries; the flag \<^verbatim>\<open>i\<close> compares characters after canonicalisation,
  which for ASCII is the upper-case letter. (Case folding of letters outside ASCII,
  which a custom keyword could contain, is not modelled.) \<^verbatim>\<open>test\<close> succeeds when some
  alternative matches at some index. An empty keyword list gives \<^verbatim>\<open>/(?!)/\<close>, which
  never matches.
\<close>

definition ci_equal :: "string \<Rightarrow> string \<Rightarrow> bool" where
  "ci_equal a b = (map upper_ascii a = map upper_ascii b)"

definition keyword_matches_at :: "string \<Rightarrow> nat \<Rightarrow> string \<Rightarrow> bool" where
  "keyword_matches_at text i k =
     (word_boundary text i \<and> i + length k \<le> length text \<and>
      ci_equal (take (length k) (drop i text)) k \<and>
      word_boundary text (i + length k))"

definition pattern_test :: "string list \<Rightarrow> string \<Rightarrow> bool" where
  "pattern_test keywords text =
     (if length keywords = 0 then False
      else list_ex (\<lambda>i. list_ex (\<lambda>k. keyword_matches_at text i k) keywords) [0..<length text + 1])"

definition detectMemoryKeyword :: "string \<Rightarrow> string list option \<Rightarrow> bool" where
  "detectMemoryKeyword text customKeywords =
     (let cleanedText = removeCodeBlocks text;
          allKeywords = (case customKeywords of None \<Rightarrow> DEFAULT_KEYWORDS
                         | Some ks \<Rightarrow> DEFAULT_KEYWORDS @ ks)
      in pattern_test allKeywords cleanedText)"

text \<open>
  Texts built from plain text and code elements, to say where a keyword stands. A
  fenced block is a body between two fences, the closing fence being the first fence
  after the opening one; an inline span is a non-empty body without backticks between
  two backticks. A text is some plain text followed by code elements, each followed
  by its own plain text, which may be empty; plain text holds no backtick. Code
  elements may touch, with one exception: an inline span is not followed at once by a
  fenced block (\<open>fence_follows\<close>), at least one plain character separates the two.
\<close>

datatype code_element = Fenced string | Inline string

fun code_text :: "code_element \<Rightarrow> string" where
  "code_text (Fenced body) = fence @ body @ fence"
| "code_text (Inline body) = backtick # body @ [backtick]"

fun render :: "(code_element \<times> string) list \<Rightarrow> string" where
  "render [] = []"
| "render ((c, p) # rest) = code_text c @ p @ render rest"

definition plain_text :: "string \<Rightarrow> bool" where
  "plain_text p = (backtick \<notin> set p)"

fun well_formed_code :: "code_element \<Rightarrow> bool" where
  "well_formed_code (Fenced body) =
     list_all (\<lambda>n. take 3 (drop n (body @ fence)) \<noteq> fence) [0..<length body]"
| "well_formed_code (Inline body) = (body \<noteq> [] \<and> plain_text body)"

fun fence_follows :: "(code_element \<times> string) list \<Rightarrow> bool" where
  "fence_follows [] = False"
| "fence_follows ((Fenced body, p) # rest) = True"
| "fence_follows ((Inline body, p) # rest) = False"

fun well_formed :: "(code_element \<times> string) list \<Rightarrow> bool" where
  "well_formed [] = True"
| "well_formed ((Fenced body, p) # rest) =
     (well_formed_code (Fenced body) \<and> plain_text p \<and> well_formed rest)"
| "well_formed ((Inline body, p) # rest) =
     (well_formed_code (Inline body) \<and> plain_text p \<and> (p \<noteq> [] \<or> \<not> fence_follows rest) \<and>
      well_formed rest)"

text \<open>The text with its fenced blocks removed and its inline spans kept.\<close>

fun without_fences :: "(code_element \<times> string) list \<Rightarrow> string" where
  "without_fences [] = []"
| "without_fences ((Fenced body, p) # rest) = p @ without_fences rest"
| "without_fences ((Inline body, p) # rest) = backtick # body @ [backtick] @ p @ without_fences rest"

text \<open>The plain text of a text: what is left without the code elements.\<close>

definition plain_of :: "string \<Rightarrow> (code_element \<times> string) list \<Rightarrow> string" where
  "plain_of p0 segments = p0 @ concat (map snd segments)"

text \<open>A keyword occurs in a text as a whole word, in some letter case.\<close>

definition whole_word_in :: "string \<Rightarrow> string \<Rightarrow> bool" where
  "whole_word_in k text =
     (\<exists>u k' v. text = u @ k' @ v \<and> ci_equal k' k \<and>
        (u = [] \<or> \<not> is_word_char (last u)) \<and> (v = [] \<or> \<not> is_word_char (hd v)))"

section \<open>Message tracker: ordering under upserts\<close>


lemma findIndex_from_eq:
  "findIndex_from P xs k =
     (if \<exists>x\<in>set xs. P x then k + int (length (takeWhile (\<lambda>x. \<not> P x) xs)) else - 1)"
  by (induction xs arbitrary: k) auto

lemma findIndex_nonneg: "findIndex P xs \<ge> 0 \<longleftrightarrow> (\<exists>x\<in>set xs. P x)"
  by (simp add: findIndex_def findIndex_from_eq)

lemma findIndex_nat:
  "\<exists>x\<in>set xs. P x \<Longrightarrow> nat (findIndex P xs) = length (takeWhile (\<lambda>x. \<not> P x) xs)"
  by (simp add: findIndex_def findIndex_from_eq)

lemma first_index_lt:
  "\<exists>x\<in>set xs. P x \<Longrightarrow> length (takeWhile (\<lambda>x. \<not> P x) xs) < length xs"
  by (induction xs) auto

lemma first_index_sat:
  "\<exists>x\<in>set xs. P x \<Longrightarrow> P (xs ! length (takeWhile (\<lambda>x. \<not> P x) xs))"
  by (induction xs) auto

lemma first_index_least:
  "j < length (takeWhile (\<lambda>x. \<not> P x) xs) \<Longrightarrow> \<not> P (xs ! j)"
proof (induction xs arbitrary: j)
  case Nil then show ?case by simp
next
  case (Cons a xs)
  then show ?case by (cases j) (auto split: if_splits)
qed

lemma mutate_first_eq:
  "mutate_first P f xs =
     (if \<exists>x\<in>set xs. P x
      then xs[length (takeWhile (\<lambda>x. \<not> P x) xs) := f (xs ! length (takeWhile (\<lambda>x. \<not> P x) xs))]
      else xs)"
  by (induction xs) auto

lemma find_eq:
  "List.find P xs =
     (if \<exists>x\<in>set xs. P x then Some (xs ! length (takeWhile (\<lambda>x. \<not> P x) xs)) else None)"
  by (induction xs) auto


lemma getMessages_trackMessage_same:
  "getMessages (trackMessage t s m) s =
     (if \<exists>x\<in>set (getMessages t s). msg_id x = msg_id m
      then (getMessages t s)[length (takeWhile (\<lambda>x. \<not> msg_id x = msg_id m) (getMessages t s)) := m]
      else getMessages t s @ [m])"
  by (auto simp: getMessages_def trackMessage_def Let_def findIndex_nonneg findIndex_nat
      split: option.splits)

lemma getMessages_trackMessage_other:
  "s' \<noteq> s \<Longrightarrow> getMessages (trackMessage t s' m) s = getMessages t s"
  by (simp add: getMessages_def trackMessage_def Let_def)

lemma ex_in_map: "(\<exists>x\<in>set xs. f x = v) \<longleftrightarrow> v \<in> set (map f xs)"
  by (induction xs) auto

lemma map_msg_id_update:
  "i < length xs \<Longrightarrow> msg_id (xs ! i) = msg_id m \<Longrightarrow> map msg_id (xs[i := m]) = map msg_id xs"
  by (simp add: map_update list_update_same_conv)

lemma first_occurrences_seen:
  "x \<in> set seen \<Longrightarrow> first_occurrences seen [x] = seen"
  "x \<notin> set seen \<Longrightarrow> first_occurrences seen [x] = seen @ [x]"
  by simp_all

lemma ids_trackMessage:
  "map msg_id (getMessages (trackMessage t s' m) s) =
     first_occurrences (map msg_id (getMessages t s)) (op_message_id s (TrackMessage s' m))"
proof (cases "s' = s")
  case False
  then show ?thesis by (simp add: getMessages_trackMessage_other)
next
  case True
  show ?thesis
  proof (cases "\<exists>x\<in>set (getMessages t s). msg_id x = msg_id m")
    case False
    then have "msg_id m \<notin> set (map msg_id (getMessages t s))" by (simp only: ex_in_map not_False_eq_True)
    with True False show ?thesis by (simp add: getMessages_trackMessage_same)
  next
    case ex: True
    let ?xs = "getMessages t s"
    let ?P = "\<lambda>x. msg_id x = msg_id m"
    have "map msg_id (?xs[length (takeWhile (\<lambda>x. \<not> ?P x) ?xs) := m]) = map msg_id ?xs"
      using first_index_lt[OF ex] first_index_sat[OF ex] by (rule map_msg_id_update)
    moreover from ex have "msg_id m \<in> set (map msg_id (getMessages t s))" by (simp only: ex_in_map)
    ultimately show ?thesis using True ex by (simp add: getMessages_trackMessage_same)
  qed
qed

lemma getMessages_fold: "(case sessions t s of None \<Rightarrow> [] | Some ms \<Rightarrow> ms) = getMessages t s"
  by (simp add: getMessages_def)

lemma getMessages_set:
  "getMessages (t\<lparr> sessions := (sessions t)(s' \<mapsto> v) \<rparr>) s = (if s' = s then v else getMessages t s)"
  by (simp add: getMessages_def)

lemma getMessages_ensureMessage_same:
  "getMessages (ensureMessage t s i r n) s =
     (if \<exists>x\<in>set (getMessages t s). msg_id x = i
      then mutate_first (\<lambda>m. msg_id m = i) (\<lambda>m. m\<lparr> msg_role := r \<rparr>) (getMessages t s)
      else getMessages t s @ [\<lparr> msg_id = i, msg_role = r, msg_parts = [], msg_timestamp = n \<rparr>])"
proof (cases "\<exists>x\<in>set (getMessages t s). msg_id x = i")
  case False
  then show ?thesis
    by (simp add: ensureMessage_def getMessages_fold find_eq getMessages_set)
next
  case ex: True
  let ?xs = "getMessages t s"
  let ?k = "length (takeWhile (\<lambda>x. \<not> msg_id x = i) ?xs)"
  show ?thesis
  proof (cases "msg_role (?xs ! ?k) = r")
    case True
    then have "(?xs ! ?k)\<lparr> msg_role := r \<rparr> = ?xs ! ?k"
      by (cases "?xs ! ?k") auto
    then have "mutate_first (\<lambda>m. msg_id m = i) (\<lambda>m. m\<lparr> msg_role := r \<rparr>) ?xs = ?xs"
      using ex by (simp add: mutate_first_eq)
    with ex True show ?thesis
      by (simp add: ensureMessage_def getMessages_fold find_eq)
  next
    case False
    with ex show ?thesis
      by (simp add: ensureMessage_def getMessages_fold find_eq getMessages_set)
  qed
qed

lemma getMessages_ensureMessage_other:
  "s' \<noteq> s \<Longrightarrow> getMessages (ensureMessage t s' i r n) s = getMessages t s"
  by (simp add: ensureMessage_def getMessages_fold getMessages_set Let_def split: option.splits)

lemma getMessages_ensureMessage:
  "getMessages (ensureMessage t s' i r n) s =
     (if s' \<noteq> s then getMessages t s
      else if \<exists>x\<in>set (getMessages t s). msg_id x = i
      then mutate_first (\<lambda>m. msg_id m = i) (\<lambda>m. m\<lparr> msg_role := r \<rparr>) (getMessages t s)
      else getMessages t s @ [\<lparr> msg_id = i, msg_role = r, msg_parts = [], msg_timestamp = n \<rparr>])"
  using getMessages_ensureMessage_same[of t s i r n] getMessages_ensureMessage_other[of s' s t i r n]
  by (cases "s' = s") simp_all

lemma map_msg_id_mutate_first:
  "(\<And>x. msg_id (f x) = msg_id x) \<Longrightarrow> map msg_id (mutate_first P f xs) = map msg_id xs"
  by (induction xs) auto

lemma ids_ensureMessage:
  "map msg_id (getMessages (ensureMessage t s' i r n) s) =
     first_occurrences (map msg_id (getMessages t s)) (op_message_id s (EnsureMessage s' i r n))"
proof -
  have "(\<exists>x\<in>set (getMessages t s). msg_id x = i) \<longleftrightarrow> i \<in> set (map msg_id (getMessages t s))"
    by (rule ex_in_map)
  then show ?thesis
    by (simp add: getMessages_ensureMessage map_msg_id_mutate_first)
qed

lemma parts_of_eq:
  "parts_of t s i =
     (if \<exists>m\<in>set (getMessages t s). msg_id m = i
      then msg_parts (getMessages t s ! length (takeWhile (\<lambda>m. \<not> msg_id m = i) (getMessages t s)))
      else [])"
  by (simp add: parts_of_def find_eq)

lemma getMessages_addPart_other:
  "s' \<noteq> s \<Longrightarrow> getMessages (addPart t s' i p x n) s = getMessages t s"
  by (simp add: addPart_def getMessages_fold getMessages_set Let_def split: option.splits)

lemma getMessages_addPart_same:
  "getMessages (addPart t s i p x n) s =
     (if \<exists>m\<in>set (getMessages t s). msg_id m = i
      then mutate_first (\<lambda>m. msg_id m = i)
             (\<lambda>m. m\<lparr> msg_parts :=
                (if \<exists>q\<in>set (parts_of t s i). part_partId q = Some p
                 then (parts_of t s i)[length (takeWhile (\<lambda>q. \<not> part_partId q = Some p) (parts_of t s i))
                        := x\<lparr> part_partId := Some p \<rparr>]
                 else parts_of t s i @ [x\<lparr> part_partId := Some p \<rparr>]) \<rparr>) (getMessages t s)
      else getMessages t s @ [\<lparr> msg_id = i, msg_role = Assistant,
              msg_parts = [x\<lparr> part_partId := Some p \<rparr>], msg_timestamp = n \<rparr>])"
proof (cases "\<exists>m\<in>set (getMessages t s). msg_id m = i")
  case False
  then show ?thesis
    by (simp add: addPart_def getMessages_fold find_eq getMessages_set)
next
  case ex: True
  show ?thesis
  proof (cases "\<exists>q\<in>set (parts_of t s i). part_partId q = Some p")
    case True
    with ex show ?thesis
      by (simp add: addPart_def getMessages_fold find_eq getMessages_set parts_of_eq
          findIndex_nonneg findIndex_nat Let_def)
  next
    case False
    with ex show ?thesis
      by (simp add: addPart_def getMessages_fold find_eq getMessages_set parts_of_eq
          findIndex_nonneg findIndex_nat Let_def)
  qed
qed

lemma getMessages_addPart:
  "getMessages (addPart t s' i p x n) s =
     (if s' \<noteq> s then getMessages t s
      else if \<exists>m\<in>set (getMessages t s). msg_id m = i
      then mutate_first (\<lambda>m. msg_id m = i)
             (\<lambda>m. m\<lparr> msg_parts :=
                (if \<exists>q\<in>set (parts_of t s i). part_partId q = Some p
                 then (parts_of t s i)[length (takeWhile (\<lambda>q. \<not> part_partId q = Some p) (parts_of t s i))
                        := x\<lparr> part_partId := Some p \<rparr>]
                 else parts_of t s i @ [x\<lparr> part_partId := Some p \<rparr>]) \<rparr>) (getMessages t s)
      else getMessages t s @ [\<lparr> msg_id = i, msg_role = Assistant,
              msg_parts = [x\<lparr> part_partId := Some p \<rparr>], msg_timestamp = n \<rparr>])"
  using getMessages_addPart_same[of t s i p x n] getMessages_addPart_other[of s' s t i p x n]
  by (cases "s' = s") simp_all

lemma ids_addPart:
  "map msg_id (getMessages (addPart t s' i p x n) s) =
     first_occurrences (map msg_id (getMessages t s)) (op_message_id s (AddPart s' i p x n))"
proof -
  have "(\<exists>x\<in>set (getMessages t s). msg_id x = i) \<longleftrightarrow> i \<in> set (map msg_id (getMessages t s))"
    by (rule ex_in_map)
  then show ?thesis
    by (simp add: getMessages_addPart map_msg_id_mutate_first)
qed

lemma first_occurrences_append:
  "first_occurrences seen (xs @ ys) = first_occurrences (first_occurrences seen xs) ys"
  by (induction xs arbitrary: seen) auto

lemma ids_apply_op:
  "map msg_id (getMessages (apply_op t op) s) =
     first_occurrences (map msg_id (getMessages t s)) (op_message_id s op)"
  by (cases op) (simp_all only: apply_op.simps ids_trackMessage ids_ensureMessage ids_addPart)

lemma ids_foldl:
  "map msg_id (getMessages (foldl apply_op t ops) s) =
     first_occurrences (map msg_id (getMessages t s)) (concat (map (op_message_id s) ops))"
proof (induction ops arbitrary: t)
  case Nil
  then show ?case by simp
next
  case (Cons op ops)
  show ?case
    by (simp only: foldl_Cons Cons.IH ids_apply_op list.map concat.simps first_occurrences_append)
qed


lemma parts_of_cong: "getMessages t' s = getMessages t s \<Longrightarrow> parts_of t' s i = parts_of t s i"
  by (simp add: parts_of_def)

lemma find_append:
  "List.find P (xs @ ys) = (case List.find P xs of None \<Rightarrow> List.find P ys | Some x \<Rightarrow> Some x)"
  by (induction xs) auto

lemma find_append_not: "\<not> P y \<Longrightarrow> List.find P (xs @ [y]) = List.find P xs"
  by (induction xs) auto

lemma find_mutate_first_other:
  "(\<And>x. Q x \<Longrightarrow> \<not> P x \<and> \<not> P (f x)) \<Longrightarrow> List.find P (mutate_first Q f xs) = List.find P xs"
  by (induction xs) auto

lemma find_mutate_first_same:
  "(\<And>x. P x \<Longrightarrow> P (f x)) \<Longrightarrow> List.find P (mutate_first P f xs) = map_option f (List.find P xs)"
  by (induction xs) auto

lemma find_update_other:
  "\<not> P m \<Longrightarrow> k < length xs \<Longrightarrow> \<not> P (xs ! k) \<Longrightarrow> List.find P (xs[k := m]) = List.find P xs"
proof (induction xs arbitrary: k)
  case Nil then show ?case by simp
next
  case (Cons a xs)
  then show ?case by (cases k) auto
qed

lemma find_None_iff_not_ex: "List.find P xs = None \<longleftrightarrow> \<not> (\<exists>x\<in>set xs. P x)"
  by (induction xs) auto

lemma map_partId_update:
  "k < length xs \<Longrightarrow> part_partId (xs ! k) = part_partId y \<Longrightarrow>
     map part_partId (xs[k := y]) = map part_partId xs"
  by (simp add: map_update list_update_same_conv)

lemma parts_addPart_same:
  "parts_of (addPart t s i p x n) s i =
     (if \<exists>q\<in>set (parts_of t s i). part_partId q = Some p
      then (parts_of t s i)[length (takeWhile (\<lambda>q. \<not> part_partId q = Some p) (parts_of t s i))
             := x\<lparr> part_partId := Some p \<rparr>]
      else parts_of t s i @ [x\<lparr> part_partId := Some p \<rparr>])"
proof (cases "\<exists>m\<in>set (getMessages t s). msg_id m = i")
  case False
  then have none: "List.find (\<lambda>m. msg_id m = i) (getMessages t s) = None"
    by (simp only: find_None_iff_not_ex not_False_eq_True)
  then have e: "parts_of t s i = []" by (simp add: parts_of_def)
  have "parts_of (addPart t s i p x n) s i = [x\<lparr> part_partId := Some p \<rparr>]"
    unfolding parts_of_def[of "addPart t s i p x n"] getMessages_addPart_same
    using False none by (simp add: find_append)
  then show ?thesis by (simp add: e)
next
  case True
  then obtain m where m: "List.find (\<lambda>m. msg_id m = i) (getMessages t s) = Some m"
    using find_None_iff_not_ex[of "\<lambda>m. msg_id m = i" "getMessages t s"] by (cases "List.find (\<lambda>m. msg_id m = i) (getMessages t s)") auto
  have "List.find (\<lambda>m. msg_id m = i) (getMessages (addPart t s i p x n) s) =
        map_option (\<lambda>m. m\<lparr> msg_parts :=
                (if \<exists>q\<in>set (parts_of t s i). part_partId q = Some p
                 then (parts_of t s i)[length (takeWhile (\<lambda>q. \<not> part_partId q = Some p) (parts_of t s i))
                        := x\<lparr> part_partId := Some p \<rparr>]
                 else parts_of t s i @ [x\<lparr> part_partId := Some p \<rparr>]) \<rparr>)
          (List.find (\<lambda>m. msg_id m = i) (getMessages t s))"
    using True by (simp only: getMessages_addPart_same if_True) (rule find_mutate_first_same, simp)
  then show ?thesis
    by (simp only: parts_of_def[of "addPart t s i p x n"] m) simp
qed

lemma find_addPart_other:
  assumes "i' \<noteq> i"
  shows "List.find (\<lambda>m. msg_id m = i) (getMessages (addPart t s i' p x n) s) =
         List.find (\<lambda>m. msg_id m = i) (getMessages t s)"
proof (cases "\<exists>m\<in>set (getMessages t s). msg_id m = i'")
  case False
  with assms show ?thesis
    by (simp add: getMessages_addPart_same find_append_not)
next
  case True
  have "List.find (\<lambda>m. msg_id m = i) (mutate_first (\<lambda>m. msg_id m = i') f (getMessages t s)) =
        List.find (\<lambda>m. msg_id m = i) (getMessages t s)"
    if "\<And>m. msg_id (f m) = msg_id m" for f
    using assms that by (intro find_mutate_first_other) simp
  with True show ?thesis
    by (simp add: getMessages_addPart_same)
qed

lemma parts_addPart_other:
  "s' \<noteq> s \<or> i' \<noteq> i \<Longrightarrow> parts_of (addPart t s' i' p x n) s i = parts_of t s i"
proof (cases "s' = s")
  case False
  then show ?thesis by (intro parts_of_cong getMessages_addPart_other)
next
  case True
  assume "s' \<noteq> s \<or> i' \<noteq> i"
  with True have ne: "i' \<noteq> i" by simp
  show ?thesis
    by (simp add: parts_of_def True find_addPart_other[OF ne])
qed

lemma part_ids_addPart:
  "map part_partId (parts_of (addPart t s' i' p x n) s i) =
     first_occurrences (map part_partId (parts_of t s i)) (map Some (op_part_id s i (AddPart s' i' p x n)))"
proof (cases "s' = s \<and> i' = i")
  case False
  then show ?thesis by (auto simp: parts_addPart_other)
next
  case True
  let ?ps = "parts_of t s i"
  show ?thesis
  proof (cases "\<exists>q\<in>set ?ps. part_partId q = Some p")
    case ex: True
    then have mem: "Some p \<in> set (map part_partId ?ps)" by (simp only: ex_in_map)
    have "map part_partId (?ps[length (takeWhile (\<lambda>q. \<not> part_partId q = Some p) ?ps) := x\<lparr> part_partId := Some p \<rparr>])
          = map part_partId ?ps"
      using first_index_lt[OF ex] first_index_sat[OF ex] by (intro map_partId_update) simp_all
    with True ex mem show ?thesis by (simp add: parts_addPart_same)
  next
    case nex: False
    then have "Some p \<notin> set (map part_partId ?ps)" by (simp only: ex_in_map not_False_eq_True)
    with True nex show ?thesis by (simp add: parts_addPart_same)
  qed
qed

lemma parts_ensureMessage_same: "parts_of (ensureMessage t s i' r n) s i = parts_of t s i"
proof (cases "i' = i")
  case ne: False
  have "List.find (\<lambda>m. msg_id m = i) (getMessages (ensureMessage t s i' r n) s) =
        List.find (\<lambda>m. msg_id m = i) (getMessages t s)"
  proof (cases "\<exists>m\<in>set (getMessages t s). msg_id m = i'")
    case False
    with ne show ?thesis by (simp add: getMessages_ensureMessage_same find_append_not)
  next
    case True
    have "List.find (\<lambda>m. msg_id m = i) (mutate_first (\<lambda>m. msg_id m = i') (\<lambda>m. m\<lparr> msg_role := r \<rparr>) (getMessages t s)) =
          List.find (\<lambda>m. msg_id m = i) (getMessages t s)"
      using ne by (intro find_mutate_first_other) simp
    with True show ?thesis by (simp add: getMessages_ensureMessage_same)
  qed
  then show ?thesis by (simp add: parts_of_def)
next
  case eq: True
  show ?thesis
  proof (cases "\<exists>x\<in>set (getMessages t s). msg_id x = i")
    case False
    then have "List.find (\<lambda>m. msg_id m = i) (getMessages t s) = None"
      by (simp only: find_None_iff_not_ex not_False_eq_True)
    with False show ?thesis
      by (simp add: parts_of_def eq getMessages_ensureMessage_same find_append)
  next
    case ex: True
    have "List.find (\<lambda>m. msg_id m = i) (mutate_first (\<lambda>m. msg_id m = i) (\<lambda>m. m\<lparr> msg_role := r \<rparr>) (getMessages t s))
          = map_option (\<lambda>m. m\<lparr> msg_role := r \<rparr>) (List.find (\<lambda>m. msg_id m = i) (getMessages t s))"
      by (rule find_mutate_first_same) simp
    with ex show ?thesis
      by (simp add: parts_of_def eq getMessages_ensureMessage_same split: option.splits)
  qed
qed

lemma parts_ensureMessage: "parts_of (ensureMessage t s' i' r n) s i = parts_of t s i"
proof (cases "s' = s")
  case False
  then show ?thesis by (intro parts_of_cong getMessages_ensureMessage_other)
next
  case True
  show ?thesis
    by (simp only: True parts_ensureMessage_same)
qed

lemma parts_trackMessage_other:
  "\<not> tracks s i (TrackMessage s' m) \<Longrightarrow> parts_of (trackMessage t s' m) s i = parts_of t s i"
proof (cases "s' = s")
  case False
  then show ?thesis by (intro parts_of_cong getMessages_trackMessage_other)
next
  case True
  assume "\<not> tracks s i (TrackMessage s' m)"
  with True have ne: "msg_id m \<noteq> i" by simp
  have "List.find (\<lambda>x. msg_id x = i) (getMessages (trackMessage t s m) s) =
        List.find (\<lambda>x. msg_id x = i) (getMessages t s)"
  proof (cases "\<exists>x\<in>set (getMessages t s). msg_id x = msg_id m")
    case False
    with ne show ?thesis
      by (simp add: getMessages_trackMessage_same find_append_not)
  next
    case ex: True
    have "List.find (\<lambda>x. msg_id x = i)
            ((getMessages t s)[length (takeWhile (\<lambda>x. \<not> msg_id x = msg_id m) (getMessages t s)) := m])
          = List.find (\<lambda>x. msg_id x = i) (getMessages t s)"
      using ne first_index_lt[OF ex] first_index_sat[OF ex] by (intro find_update_other) simp_all
    with ex show ?thesis
      by (simp add: getMessages_trackMessage_same)
  qed
  then show ?thesis by (simp add: parts_of_def True)
qed

lemma part_ids_apply_op:
  "\<not> tracks s i op \<Longrightarrow>
   map part_partId (parts_of (apply_op t op) s i) =
     first_occurrences (map part_partId (parts_of t s i)) (map Some (op_part_id s i op))"
proof (cases op)
  case (TrackMessage s' m)
  assume "\<not> tracks s i op"
  with TrackMessage show ?thesis by (simp add: parts_trackMessage_other del: tracks.simps)
next
  case (EnsureMessage s' i' r n)
  then show ?thesis by (simp add: parts_ensureMessage)
next
  case (AddPart s' i' p x n)
  then show ?thesis by (simp only: apply_op.simps part_ids_addPart)
qed

lemma part_ids_foldl:
  "\<forall>op\<in>set ops. \<not> tracks s i op \<Longrightarrow>
   map part_partId (parts_of (foldl apply_op t ops) s i) =
     first_occurrences (map part_partId (parts_of t s i)) (map Some (concat (map (op_part_id s i) ops)))"
proof (induction ops arbitrary: t)
  case Nil
  then show ?case by simp
next
  case (Cons op ops)
  then have a: "\<not> tracks s i op" and b: "\<forall>op\<in>set ops. \<not> tracks s i op" by simp_all
  show ?case
    by (simp only: foldl_Cons Cons.IH[OF b] part_ids_apply_op[OF a] list.map concat.simps
        first_occurrences_append map_append)
qed


text \<open>
  Claim C9. \<open>trackMessage\<close> with a message whose id is already tracked in the session
  replaces the first (and only) entry with that id at its position; with a new id it
  appends. Hence, over any sequence of \<open>trackMessage\<close>, \<open>ensureMessage\<close> and
  \<open>addPart\<close> calls, the ids of a session's messages are the ids presented to that
  session in first-insert order. The same holds for the part ids of a message under
  \<open>addPart\<close>: an existing part id is replaced in place, a new one is appended, and over
  any sequence of calls that does not replace the message itself the part ids are in
  first-insert order.
\<close>

theorem tracker_first_insert_order:
  "(if \<exists>x\<in>set (getMessages t s). msg_id x = msg_id m
    then \<exists>k<length (getMessages t s).
           msg_id (getMessages t s ! k) = msg_id m \<and>
           (\<forall>j<k. msg_id (getMessages t s ! j) \<noteq> msg_id m) \<and>
           getMessages (trackMessage t s m) s = (getMessages t s)[k := m]
    else getMessages (trackMessage t s m) s = getMessages t s @ [m]) \<and>
   map msg_id (getMessages (foldl apply_op t ops) s) =
     first_occurrences (map msg_id (getMessages t s)) (concat (map (op_message_id s) ops)) \<and>
   (if \<exists>q\<in>set (parts_of t s i). part_partId q = Some p
    then \<exists>k<length (parts_of t s i).
           part_partId (parts_of t s i ! k) = Some p \<and>
           (\<forall>j<k. part_partId (parts_of t s i ! j) \<noteq> Some p) \<and>
           parts_of (addPart t s i p x n) s i = (parts_of t s i)[k := x\<lparr> part_partId := Some p \<rparr>]
    else parts_of (addPart t s i p x n) s i = parts_of t s i @ [x\<lparr> part_partId := Some p \<rparr>]) \<and>
   ((\<forall>op\<in>set ops. \<not> tracks s i op) \<longrightarrow>
      map part_partId (parts_of (foldl apply_op t ops) s i) =
        first_occurrences (map part_partId (parts_of t s i))
          (map Some (concat (map (op_part_id s i) ops))))"
proof (intro conjI)
  let ?xs = "getMessages t s"
  show "if \<exists>x\<in>set ?xs. msg_id x = msg_id m
    then \<exists>k<length ?xs. msg_id (?xs ! k) = msg_id m \<and> (\<forall>j<k. msg_id (?xs ! j) \<noteq> msg_id m) \<and>
           getMessages (trackMessage t s m) s = ?xs[k := m]
    else getMessages (trackMessage t s m) s = ?xs @ [m]"
  proof (cases "\<exists>x\<in>set ?xs. msg_id x = msg_id m")
    case False
    then show ?thesis by (simp add: getMessages_trackMessage_same)
  next
    case ex: True
    let ?k = "length (takeWhile (\<lambda>x. \<not> msg_id x = msg_id m) ?xs)"
    have "?k < length ?xs" using first_index_lt[OF ex] .
    moreover have "msg_id (?xs ! ?k) = msg_id m" using first_index_sat[OF ex] .
    moreover have "\<forall>j<?k. msg_id (?xs ! j) \<noteq> msg_id m"
      using first_index_least[of _ "\<lambda>x. msg_id x = msg_id m" ?xs] by blast
    moreover have "getMessages (trackMessage t s m) s = ?xs[?k := m]"
      using ex by (simp add: getMessages_trackMessage_same)
    ultimately show ?thesis using ex by (simp only: if_True) blast
  qed
next
  show "map msg_id (getMessages (foldl apply_op t ops) s) =
     first_occurrences (map msg_id (getMessages t s)) (concat (map (op_message_id s) ops))"
    by (rule ids_foldl)
next
  let ?ps = "parts_of t s i"
  show "if \<exists>q\<in>set ?ps. part_partId q = Some p
    then \<exists>k<length ?ps. part_partId (?ps ! k) = Some p \<and> (\<forall>j<k. part_partId (?ps ! j) \<noteq> Some p) \<and>
           parts_of (addPart t s i p x n) s i = ?ps[k := x\<lparr> part_partId := Some p \<rparr>]
    else parts_of (addPart t s i p x n) s i = ?ps @ [x\<lparr> part_partId := Some p \<rparr>]"
  proof (cases "\<exists>q\<in>set ?ps. part_partId q = Some p")
    case False
    then show ?thesis by (simp add: parts_addPart_same)
  next
    case ex: True
    let ?k = "length (takeWhile (\<lambda>q. \<not> part_partId q = Some p) ?ps)"
    have "?k < length ?ps" using first_index_lt[OF ex] .
    moreover have "part_partId (?ps ! ?k) = Some p" using first_index_sat[OF ex] .
    moreover have "\<forall>j<?k. part_partId (?ps ! j) \<noteq> Some p"
      using first_index_least[of _ "\<lambda>q. part_partId q = Some p" ?ps] by blast
    moreover have "parts_of (addPart t s i p x n) s i = ?ps[?k := x\<lparr> part_partId := Some p \<rparr>]"
      using ex by (simp add: parts_addPart_same)
    ultimately show ?thesis using ex by (simp only: if_True) blast
  qed
next
  show "(\<forall>op\<in>set ops. \<not> tracks s i op) \<longrightarrow>
      map part_partId (parts_of (foldl apply_op t ops) s i) =
        first_occurrences (map part_partId (parts_of t s i))
          (map Some (concat (map (op_part_id s i) ops)))"
    using part_ids_foldl by blast
qed

lemmas demo_simps = demo_tracker_def demo_message_def demo_part_def newMessageTracker_def
  trackMessage_def addPart_def ensureMessage_def getMessages_def parts_of_def findIndex_def Let_def

text \<open>The theorem at a tracker holding three messages, the third with two parts.\<close>

theorem tracker_first_insert_order_witness:
  "map msg_id (getMessages demo_tracker ''S'') = [''m1'', ''m2'', ''m3''] \<and>
   getMessages (trackMessage demo_tracker ''S'' (demo_message ''m2'' ''B'')) ''S'' =
     (getMessages demo_tracker ''S'')[1 := demo_message ''m2'' ''B''] \<and>
   map msg_id (getMessages (foldl apply_op demo_tracker
       [TrackMessage ''S'' (demo_message ''m4'' ''x''), AddPart ''S'' ''m1'' ''p9'' (demo_part ''y'') 4,
        EnsureMessage ''S'' ''m5'' User 5, TrackMessage ''S'' (demo_message ''m2'' ''z'')]) ''S'')
     = [''m1'', ''m2'', ''m3'', ''m4'', ''m5''] \<and>
   map part_partId (parts_of demo_tracker ''S'' ''m3'') = [Some ''p1'', Some ''p2''] \<and>
   parts_of (addPart demo_tracker ''S'' ''m3'' ''p1'' (demo_part ''e'') 6) ''S'' ''m3'' =
     (parts_of demo_tracker ''S'' ''m3'')[0 := (demo_part ''e'')\<lparr> part_partId := Some ''p1'' \<rparr>] \<and>
   \<not> tracks ''S'' ''m3'' (AddPart ''S'' ''m3'' ''p3'' (demo_part ''f'') 7) \<and>
   \<not> tracks ''S'' ''m3'' (AddPart ''S'' ''m3'' ''p1'' (demo_part ''g'') 8) \<and>
   map part_partId (parts_of (foldl apply_op demo_tracker
       [AddPart ''S'' ''m3'' ''p3'' (demo_part ''f'') 7, AddPart ''S'' ''m3'' ''p1'' (demo_part ''g'') 8]) ''S'' ''m3'')
     = [Some ''p1'', Some ''p2'', Some ''p3'']"
  using tracker_first_insert_order[of demo_tracker "''S''" "demo_message ''m2'' ''B''"
      "[AddPart ''S'' ''m3'' ''p3'' (demo_part ''f'') 7, AddPart ''S'' ''m3'' ''p1'' (demo_part ''g'') 8]"
      "''m3''" "''p1''" "demo_part ''e''" 6]
    tracker_first_insert_order[of demo_tracker "''S''" "demo_message ''m2'' ''B''"
      "[TrackMessage ''S'' (demo_message ''m4'' ''x''), AddPart ''S'' ''m1'' ''p9'' (demo_part ''y'') 4,
        EnsureMessage ''S'' ''m5'' User 5, TrackMessage ''S'' (demo_message ''m2'' ''z'')]"
      "''m3''" "''p1''" "demo_part ''e''" 6]
  by (simp add: demo_simps)

section \<open>Compaction: failure leaves the table alone, success has the stated shape\<close>


declare number_exponent.simps [simp del]







lemma length_selected:
  assumes "distinct (map c_id db)"
  shows "length (filter (\<lambda>r. c_id r \<in> set ids) db) = card (set (map c_id db) \<inter> set ids)"
proof -
  have d: "distinct (map c_id (filter (\<lambda>r. c_id r \<in> set ids) db))"
    using assms by (rule distinct_map_filter)
  have "set (map c_id (filter (\<lambda>r. c_id r \<in> set ids) db)) = set (map c_id db) \<inter> set ids"
    by auto
  then have "card (set (map c_id db) \<inter> set ids) = length (map c_id (filter (\<lambda>r. c_id r \<in> set ids) db))"
    using distinct_card[OF d] by simp
  then show ?thesis by simp
qed

lemma selected_short_if_missing:
  assumes "distinct (map c_id db)" and "\<not> set ids \<subseteq> set (map c_id db)"
  shows "length (filter (\<lambda>r. c_id r \<in> set ids) db) < length ids"
proof -
  have "set (map c_id db) \<inter> set ids \<subset> set ids" using assms(2) by auto
  then have "card (set (map c_id db) \<inter> set ids) < card (set ids)"
    by (intro psubset_card_mono) simp_all
  also have "\<dots> \<le> length ids" by (rule card_length)
  finally show ?thesis by (simp add: length_selected[OF assms(1)])
qed

lemma selected_short_if_duplicate:
  assumes "distinct (map c_id db)" and "\<not> distinct ids"
  shows "length (filter (\<lambda>r. c_id r \<in> set ids) db) < length ids"
proof -
  have "card (set (map c_id db) \<inter> set ids) \<le> card (set ids)"
    by (intro card_mono) simp_all
  moreover have "card (set ids) < length ids"
    using assms(2) card_distinct[of ids] card_length[of ids] by (cases "card (set ids) = length ids") auto
  ultimately show ?thesis by (simp add: length_selected[OF assms(1)])
qed


lemma missing_ids_eq:
  "filter (\<lambda>i. i \<notin> set (map c_id (filter (\<lambda>r. c_id r \<in> set ids) db))) ids =
   filter (\<lambda>i. i \<notin> set (map c_id db)) ids"
  by (rule filter_cong) auto

text \<open>
  Claim C1. With an empty id list \<open>compactChunks\<close> fails with the empty-list error,
  and with a non-empty list of which some id resolves to no chunk it fails with the
  error naming exactly the missing ids, in argument order. In both cases the table
  that comes back is the table that went in. (The ids of a table are distinct: the
  column is its primary key.)
\<close>

theorem compact_fails_atomically:
  assumes "distinct (map c_id db)"
  shows "compactChunks db sessionId [] summary summaryId now = (Inl EmptyChunkList, db) \<and>
         (chunkIds \<noteq> [] \<and> \<not> set chunkIds \<subseteq> set (map c_id db) \<longrightarrow>
            compactChunks db sessionId chunkIds summary summaryId now =
              (Inl (ChunksNotFound (filter (\<lambda>i. i \<notin> set (map c_id db)) chunkIds)), db) \<and>
            filter (\<lambda>i. i \<notin> set (map c_id db)) chunkIds \<noteq> [])"
proof (intro conjI impI)
  show "compactChunks db sessionId [] summary summaryId now = (Inl EmptyChunkList, db)"
    by (simp add: compactChunks_def)
next
  assume a: "chunkIds \<noteq> [] \<and> \<not> set chunkIds \<subseteq> set (map c_id db)"
  then have "length (filter (\<lambda>r. c_id r \<in> set chunkIds) db) \<noteq> length chunkIds"
    using selected_short_if_missing[OF assms, of chunkIds] by simp
  with a show "compactChunks db sessionId chunkIds summary summaryId now =
              (Inl (ChunksNotFound (filter (\<lambda>i. i \<notin> set (map c_id db)) chunkIds)), db)"
    by (simp add: compactChunks_def Let_def missing_ids_eq del: set_map)
  from a show "filter (\<lambda>i. i \<notin> set (map c_id db)) chunkIds \<noteq> []"
    by (auto simp: filter_empty_conv)
qed

text \<open>
  Claim C10. When the id list repeats an id, even if every id resolves, the distinct
  rows fetched are fewer than the arguments, so \<open>compactChunks\<close> throws the
  chunks-not-found error with an empty list of missing ids, and the table is unchanged.
\<close>

theorem compact_duplicate_ids_rejected:
  assumes "distinct (map c_id db)" and "\<not> distinct chunkIds" and "set chunkIds \<subseteq> set (map c_id db)"
  shows "compactChunks db sessionId chunkIds summary summaryId now = (Inl (ChunksNotFound []), db)"
proof -
  have ne: "chunkIds \<noteq> []" using assms(2) by auto
  have "length (filter (\<lambda>r. c_id r \<in> set chunkIds) db) \<noteq> length chunkIds"
    using selected_short_if_duplicate[OF assms(1,2)] by simp
  moreover have "filter (\<lambda>i. i \<notin> set (map c_id db)) chunkIds = []"
    using assms(3) by (auto simp: filter_empty_conv)
  ultimately show ?thesis using ne
    by (simp add: compactChunks_def Let_def missing_ids_eq del: set_map)
qed


lemma c_id_mark [simp]: "c_id (mark_compacted sid now r) = c_id r"
  by (simp add: mark_compacted_def)

lemma mark_idem [simp]: "mark_compacted sid now (mark_compacted sid now r) = mark_compacted sid now r"
  by (simp add: mark_compacted_def)













lemmas demo_db_simps = demo_db_def demo_chunk_def compactChunks_def mark_compacted_def getById_def Let_def

theorem compact_fails_atomically_witness:
  "distinct (map c_id demo_db) \<and>
   compactChunks demo_db ''S'' [] ''summary'' ''ch_new'' 100 = (Inl EmptyChunkList, demo_db) \<and>
   compactChunks demo_db ''S'' [''ch_a'', ''ch_missing00001'', ''ch_b'', ''ch_zz''] ''summary'' ''ch_new'' 100 =
     (Inl (ChunksNotFound [''ch_missing00001'', ''ch_zz'']), demo_db)"
proof -
  have pk: "distinct (map c_id demo_db)" by (simp add: demo_db_simps)
  have miss: "[''ch_a'', ''ch_missing00001'', ''ch_b'', ''ch_zz''] \<noteq> [] \<and>
     \<not> set [''ch_a'', ''ch_missing00001'', ''ch_b'', ''ch_zz''] \<subseteq> set (map c_id demo_db)"
    by (simp add: demo_db_simps)
  have flt: "filter (\<lambda>i. i \<notin> set (map c_id demo_db)) [''ch_a'', ''ch_missing00001'', ''ch_b'', ''ch_zz'']
     = [''ch_missing00001'', ''ch_zz'']"
    by (simp add: demo_db_simps)
  from compact_fails_atomically[OF pk, of "''S''" "''summary''" "''ch_new''" 100
      "[''ch_a'', ''ch_missing00001'', ''ch_b'', ''ch_zz'']"] miss flt pk
  show ?thesis by simp
qed

theorem compact_duplicate_ids_rejected_witness:
  "distinct (map c_id demo_db) \<and> \<not> distinct [''ch_a'', ''ch_b'', ''ch_a''] \<and>
   set [''ch_a'', ''ch_b'', ''ch_a''] \<subseteq> set (map c_id demo_db) \<and>
   compactChunks demo_db ''S'' [''ch_a'', ''ch_b'', ''ch_a''] ''summary'' ''ch_new'' 100 =
     (Inl (ChunksNotFound []), demo_db)"
proof -
  have pk: "distinct (map c_id demo_db)" by (simp add: demo_db_simps)
  have dup: "\<not> distinct [''ch_a'', ''ch_b'', ''ch_a'']" by simp
  have sub: "set [''ch_a'', ''ch_b'', ''ch_a''] \<subseteq> set (map c_id demo_db)" by (simp add: demo_db_simps)
  from compact_duplicate_ids_rejected[OF pk dup sub, of "''S''" "''summary''" "''ch_new''" 100] pk dup sub
  show ?thesis by simp
qed


section \<open>Finalize and the memory repository\<close>


lemma find_absent': "i \<notin> set (map c_id db) \<Longrightarrow> List.find (\<lambda>r. c_id r = i) db = None"
  by (induction db) auto

lemma map_touch_absent:
  "i \<notin> set (map c_id db) \<Longrightarrow> map (\<lambda>r. if c_id r = i then f r else r) db = db"
  by (induction db) auto

text \<open>
  Claim C4 as stated fails. One \<open>addPart\<close> on an empty tracker, then \<open>finalize\<close> on an
  empty table: the stored content of the one row holds the part with its private id.
\<close>

theorem finalize_leaks_part_id:
  "stored_ids_of_table
     (fst (snd (finalize [] (addPart newMessageTracker ''S'' ''m1'' ''p1'' (demo_part ''Hello'') 5)
                  ''S'' ''ch_1'' 7 8)))
   = [[[Some ''p1'']]]"
  by (simp add: finalize_def addPart_def newMessageTracker_def getMessages_def demo_part_def create_def
      update_def chunk_updates_def getById_def stored_part_ids_def stored_ids_of_table_def Let_def
      clearSession_def setCurrentChunkId_def collect_tools_def collect_files_def)

lemma create_fresh:
  assumes "newId \<notin> set (map c_id db)"
  shows "create db \<lparr> in_sessionId = s, in_content = c, in_parentId = None,
                      in_depth = None, in_summary = None \<rparr> newId createdNow
         = (Inr (fresh_row newId s c createdNow), db @ [fresh_row newId s c createdNow])"
  using assms by (simp add: create_def Let_def fresh_row_def)

lemma update_finalized_at:
  assumes "i \<notin> set (map c_id db)" and "c_id row = i"
  shows "update (db @ [row]) i
           \<lparr> up_content = None, up_summary = None, up_status = None, up_childRefs = None,
             up_finalizedAt = Some now, up_compactedAt = None \<rparr>
         = (Some (row\<lparr> c_finalized_at := Some now \<rparr>), db @ [row\<lparr> c_finalized_at := Some now \<rparr>])"
proof -
  have g1: "getById (db @ [row]) i = Some row"
    using assms by (simp add: getById_def find_append find_absent'[OF assms(1)])
  have g2: "getById (db @ [row\<lparr> c_finalized_at := Some now \<rparr>]) i = Some (row\<lparr> c_finalized_at := Some now \<rparr>)"
    using assms by (simp add: getById_def find_append find_absent'[OF assms(1)])
  show ?thesis
    using assms(2) by (simp add: update_def g1 chunk_updates_def Let_def map_touch_absent[OF assms(1)] g2)
qed

lemma finalize_eq:
  assumes ne: "getMessages t s \<noteq> []" and fresh: "newId \<notin> set (map c_id db)"
  shows "\<exists>md. finalize db t s newId createdNow now =
      (Inr (Some ((fresh_row newId s \<lparr> cc_messages =
                     map (\<lambda>m. \<lparr> cm_id = msg_id m, cm_role = msg_role m,
                                 cm_parts = msg_parts m, cm_timestamp = msg_timestamp m \<rparr>) (getMessages t s),
                     cc_metadata = md \<rparr> createdNow)\<lparr> c_finalized_at := Some now \<rparr>)),
       db @ [(fresh_row newId s \<lparr> cc_messages =
                     map (\<lambda>m. \<lparr> cm_id = msg_id m, cm_role = msg_role m,
                                 cm_parts = msg_parts m, cm_timestamp = msg_timestamp m \<rparr>) (getMessages t s),
                     cc_metadata = md \<rparr> createdNow)\<lparr> c_finalized_at := Some now \<rparr>],
       setCurrentChunkId (clearSession t s) s newId)"
proof -
  have id: "c_id (fresh_row newId s c createdNow) = newId" for c by (simp add: fresh_row_def)
  show ?thesis
    using ne
    by (intro exI)
       (simp add: finalize_def Let_def create_fresh[OF fresh] id update_finalized_at[OF fresh id])
qed

text \<open>
  Claim C4, amended. When the session has buffered messages and the minted id is
  fresh, \<open>finalize\<close> persists a chunk whose content lists the tracked messages in order,
  each with its parts exactly as the tracker holds them; in particular every part keeps
  the private part id the tracker gave it.
\<close>

theorem finalize_stores_parts_verbatim:
  assumes ne: "getMessages t s \<noteq> []" and fresh: "newId \<notin> set (map c_id db)"
  shows "\<exists>chunk db' t'. finalize db t s newId createdNow now = (Inr (Some chunk), db', t') \<and>
           getById db' newId = Some chunk \<and>
           map cm_id (cc_messages (c_content chunk)) = map msg_id (getMessages t s) \<and>
           map cm_parts (cc_messages (c_content chunk)) = map msg_parts (getMessages t s) \<and>
           stored_part_ids (c_content chunk) = map (\<lambda>m. map part_partId (msg_parts m)) (getMessages t s)"
proof -
  from finalize_eq[OF ne fresh, of createdNow now] obtain md where
    fin: "finalize db t s newId createdNow now =
      (Inr (Some ((fresh_row newId s \<lparr> cc_messages =
                     map (\<lambda>m. \<lparr> cm_id = msg_id m, cm_role = msg_role m,
                                 cm_parts = msg_parts m, cm_timestamp = msg_timestamp m \<rparr>) (getMessages t s),
                     cc_metadata = md \<rparr> createdNow)\<lparr> c_finalized_at := Some now \<rparr>)),
       db @ [(fresh_row newId s \<lparr> cc_messages =
                     map (\<lambda>m. \<lparr> cm_id = msg_id m, cm_role = msg_role m,
                                 cm_parts = msg_parts m, cm_timestamp = msg_timestamp m \<rparr>) (getMessages t s),
                     cc_metadata = md \<rparr> createdNow)\<lparr> c_finalized_at := Some now \<rparr>],
       setCurrentChunkId (clearSession t s) s newId)"
    by blast
  let ?chunk = "(fresh_row newId s \<lparr> cc_messages =
                     map (\<lambda>m. \<lparr> cm_id = msg_id m, cm_role = msg_role m,
                                 cm_parts = msg_parts m, cm_timestamp = msg_timestamp m \<rparr>) (getMessages t s),
                     cc_metadata = md \<rparr> createdNow)\<lparr> c_finalized_at := Some now \<rparr>"
  have g: "getById (db @ [?chunk]) newId = Some ?chunk"
    by (simp add: getById_def find_append find_absent'[OF fresh] fresh_row_def)
  have a: "map cm_id (cc_messages (c_content ?chunk)) = map msg_id (getMessages t s)"
    by (simp add: fresh_row_def comp_def)
  have b: "map cm_parts (cc_messages (c_content ?chunk)) = map msg_parts (getMessages t s)"
    by (simp add: fresh_row_def comp_def)
  have c: "stored_part_ids (c_content ?chunk) = map (\<lambda>m. map part_partId (msg_parts m)) (getMessages t s)"
    by (simp add: fresh_row_def comp_def stored_part_ids_def)
  from fin g a b c show ?thesis by blast
qed

theorem finalize_stores_parts_verbatim_witness:
  "getMessages (addPart demo_tracker ''S'' ''m1'' ''p7'' (demo_part ''x'') 9) ''S'' \<noteq> [] \<and>
   ''ch_new'' \<notin> set (map c_id demo_db) \<and>
   (\<exists>chunk db' t'. finalize demo_db (addPart demo_tracker ''S'' ''m1'' ''p7'' (demo_part ''x'') 9) ''S'' ''ch_new'' 7 8
        = (Inr (Some chunk), db', t') \<and>
      stored_part_ids (c_content chunk) = [[None, Some ''p7''], [None], [Some ''p1'', Some ''p2'']])"
proof -
  let ?t = "addPart demo_tracker ''S'' ''m1'' ''p7'' (demo_part ''x'') 9"
  have ne: "getMessages ?t ''S'' \<noteq> []"
    by (simp add: demo_tracker_def demo_message_def demo_part_def newMessageTracker_def
        trackMessage_def addPart_def getMessages_def findIndex_def Let_def)
  have fresh: "''ch_new'' \<notin> set (map c_id demo_db)" by (simp add: demo_db_def demo_chunk_def)
  have ids: "map (\<lambda>m. map part_partId (msg_parts m)) (getMessages ?t ''S'')
             = [[None, Some ''p7''], [None], [Some ''p1'', Some ''p2'']]"
    by (simp add: demo_tracker_def demo_message_def demo_part_def newMessageTracker_def
        trackMessage_def addPart_def getMessages_def findIndex_def Let_def)
  from finalize_stores_parts_verbatim[OF ne fresh, of 7 8] obtain chunk db' t' where
    "finalize demo_db ?t ''S'' ''ch_new'' 7 8 = (Inr (Some chunk), db', t')"
    "stored_part_ids (c_content chunk) = map (\<lambda>m. map part_partId (msg_parts m)) (getMessages ?t ''S'')"
    by blast
  then show ?thesis
    using ne fresh ids by (intro conjI exI[of _ chunk] exI[of _ db'] exI[of _ t']) simp_all
qed


text \<open>
  Claim C3 against the code. The fragment for \<^verbatim>\<open>updated_at\<close> is pushed before the test
  \<^verbatim>\<open>updates.length === 0\<close>, so the test never passes: an update that provides no field
  still runs the UPDATE and stamps the row. Here a stored memory with a null
  \<^verbatim>\<open>updated_at\<close> is updated with no fields at time 2000.
\<close>

theorem memory_update_no_fields_sets_updated_at:
  "memory_update [demo_memory] ''mem_1'' no_fields 2000 =
     (Some ((rowToMemory demo_memory)\<lparr> mem_updatedAt := Some 2000 \<rparr>),
      [demo_memory\<lparr> m_updated_at := Some 2000 \<rparr>]) \<and>
   memory_getById [demo_memory] ''mem_1'' = Some (rowToMemory demo_memory) \<and>
   m_updated_at demo_memory = None"
  by (simp add: memory_update_def memory_updates_def memory_getById_def rowToMemory_def
      demo_memory_def no_fields_def Let_def)

lemma memory_update_always_touches:
  assumes "List.find (\<lambda>r. m_id r = i) db = Some row"
  shows "\<exists>row'. List.find (\<lambda>r. m_id r = i) (snd (memory_update db i input now)) = Some row' \<and>
           m_updated_at row' = Some now"
proof -
  let ?u = "fold (\<lambda>u. u) (memory_updates input now)"
  have keep: "m_id (?u r) = m_id r" for r
    by (simp add: memory_updates_def split: option.splits)
  have up: "m_updated_at (?u r) = Some now" for r
    by (simp add: memory_updates_def split: option.splits)
  have "List.find (\<lambda>r. m_id r = i) (map (\<lambda>r. if m_id r = i then ?u r else r) db) = Some (?u row)"
    using assms by (induction db) (auto simp: keep)
  moreover have "length (memory_updates input now) \<noteq> 0" by (simp add: memory_updates_def)
  ultimately show ?thesis
    using assms up by (simp add: memory_update_def memory_getById_def Let_def)
qed

section \<open>Migrator: applying pending migrations twice\<close>


lemma fold_max_Max: "fold max (map am_version rs) (am_version r) = Max (set (map am_version (r # rs)))"
  by (simp only: list.map Max.set_eq_fold)

lemma getCurrentVersion_Some:
  "tracking db s = Some rows \<Longrightarrow>
   getCurrentVersion db s = (if rows = [] then 0 else Max (set (map am_version rows)))"
  by (cases rows) (simp_all only: getCurrentVersion_def option.case list.case fold_max_Max if_True if_False list.distinct refl)

lemma apply_migration_tracking:
  assumes "keeps_tracking run_sql"
    and "apply_migration run_sql h now s m db = Inr db'"
    and "tracking db s = Some rows"
  shows "tracking db' s = Some (rows @ [\<lparr> am_version = mig_version m, am_filename = mig_filename m,
                                        am_applied_at = now, am_checksum = h (mig_sql m) \<rparr>])"
proof -
  from assms(2) obtain db1 where r: "run_sql (mig_sql m) db = Inr db1"
    by (auto simp: apply_migration_def split: sum.splits)
  with assms(1) have "tracking db1 = tracking db" by (simp add: keeps_tracking_def)
  with assms(3) have t: "tracking db1 s = Some rows" by simp
  from assms(2) show ?thesis
    by (auto simp: apply_migration_def r t split: if_splits)
qed

lemma run_pending_tracking:
  assumes "keeps_tracking run_sql"
  shows "run_pending run_sql h now s cur ms db n = (Inr n', db') \<Longrightarrow> tracking db s = Some rows \<Longrightarrow>
     \<exists>rows'. tracking db' s = Some (rows @ rows') \<and>
        (\<forall>r\<in>set rows'. cur < am_version r) \<and>
        (\<forall>m\<in>set ms. cur < mig_version m \<longrightarrow> mig_version m \<in> set (map am_version (rows @ rows')))"
proof (induction ms arbitrary: db n rows)
  case Nil
  then show ?case by simp
next
  case (Cons m ms)
  show ?case
  proof (cases "mig_version m \<le> cur")
    case True
    with Cons.prems have "run_pending run_sql h now s cur ms db n = (Inr n', db')" by simp
    from Cons.IH[OF this Cons.prems(2)] obtain rows' where
      "tracking db' s = Some (rows @ rows')" "\<forall>r\<in>set rows'. cur < am_version r"
      "\<forall>m\<in>set ms. cur < mig_version m \<longrightarrow> mig_version m \<in> set (map am_version (rows @ rows'))"
      by blast
    with True show ?thesis by (intro exI[of _ rows']) auto
  next
    case False
    with Cons.prems obtain db1 where
      a: "apply_migration run_sql h now s m db = Inr db1" and
      b: "run_pending run_sql h now s cur ms db1 (n + 1) = (Inr n', db')"
      by (auto split: sum.splits)
    let ?row = "\<lparr> am_version = mig_version m, am_filename = mig_filename m,
                   am_applied_at = now, am_checksum = h (mig_sql m) \<rparr>"
    have t1: "tracking db1 s = Some (rows @ [?row])"
      using apply_migration_tracking[OF assms a Cons.prems(2)] .
    from Cons.IH[OF b t1] obtain rows' where r:
      "tracking db' s = Some ((rows @ [?row]) @ rows')" "\<forall>r\<in>set rows'. cur < am_version r"
      "\<forall>m\<in>set ms. cur < mig_version m \<longrightarrow> mig_version m \<in> set (map am_version ((rows @ [?row]) @ rows'))"
      by blast
    show ?thesis
      using r False by (intro exI[of _ "?row # rows'"]) auto
  qed
qed

lemma run_pending_nothing:
  "\<forall>m\<in>set ms. mig_version m \<le> cur \<Longrightarrow> run_pending run_sql h now s cur ms db n = (Inr n, db)"
  by (induction ms) auto

lemma ensure_existing: "tracking db s = Some rows \<Longrightarrow> ensureMigrationTable db s = db"
  by (simp add: ensureMigrationTable_def)

lemma ensure_tracking: "\<exists>rows. tracking (ensureMigrationTable db s) s = Some rows"
  by (auto simp: ensureMigrationTable_def split: option.splits)

text \<open>
  Claim C7. When a run of \<open>runMigrations\<close> has returned, a second run on the database it
  left (at any later time) applies 0 migrations and returns that database unchanged,
  tracking tables included. This holds for every starting database and subsystem,
  whatever the embedded migrations are, as long as their SQL leaves the tracking
  tables alone.
\<close>

theorem runMigrations_idempotent:
  assumes frame: "keeps_tracking run_sql"
    and first: "runMigrations run_sql h embedded now db s = (Inr n, db1)"
  shows "runMigrations run_sql h embedded now' db1 s = (Inr 0, db1)"
proof -
  let ?db0 = "ensureMigrationTable db s"
  let ?cur = "getCurrentVersion ?db0 s"
  obtain rows where rows: "tracking ?db0 s = Some rows" using ensure_tracking by blast
  from first obtain ms where ms: "getMigrations embedded s = Inr ms"
    and run: "run_pending run_sql h now s ?cur ms ?db0 0 = (Inr n, db1)"
    by (auto simp: runMigrations_def Let_def split: sum.splits)
  from run_pending_tracking[OF frame run rows] obtain rows' where r:
    "tracking db1 s = Some (rows @ rows')" "\<forall>r\<in>set rows'. ?cur < am_version r"
    "\<forall>m\<in>set ms. ?cur < mig_version m \<longrightarrow> mig_version m \<in> set (map am_version (rows @ rows'))"
    by blast
  have cur: "?cur = (if rows = [] then 0 else Max (set (map am_version rows)))"
    using getCurrentVersion_Some[OF rows] .
  have cur1: "getCurrentVersion db1 s =
      (if rows @ rows' = [] then 0 else Max (set (map am_version (rows @ rows'))))"
    using getCurrentVersion_Some[OF r(1)] .
  have mono: "?cur \<le> getCurrentVersion db1 s"
  proof (cases "rows = []")
    case True
    show ?thesis
    proof (cases "rows' = []")
      case True
      with \<open>rows = []\<close> show ?thesis by (simp add: cur cur1)
    next
      case False
      then obtain x where x: "x \<in> set rows'" by (cases rows') auto
      with r(2) have "?cur < am_version x" by blast
      moreover have "am_version x \<le> Max (set (map am_version (rows @ rows')))"
        using x by (intro Max_ge) auto
      ultimately show ?thesis using False by (simp add: cur1)
    qed
  next
    case False
    then have "Max (set (map am_version rows)) \<le> Max (set (map am_version (rows @ rows')))"
      by (intro Max_mono) auto
    with False show ?thesis by (simp add: cur cur1)
  qed
  have all: "\<forall>m\<in>set ms. mig_version m \<le> getCurrentVersion db1 s"
  proof
    fix m assume m: "m \<in> set ms"
    show "mig_version m \<le> getCurrentVersion db1 s"
    proof (cases "?cur < mig_version m")
      case True
      with r(3) m have in_rows: "mig_version m \<in> set (map am_version (rows @ rows'))" by blast
      then have "rows @ rows' \<noteq> []" by auto
      moreover have "mig_version m \<le> Max (set (map am_version (rows @ rows')))"
        using in_rows by (intro Max_ge) auto
      ultimately show ?thesis by (simp only: cur1 if_False)
    next
      case False
      with mono show ?thesis by linarith
    qed
  qed
  have "ensureMigrationTable db1 s = db1" using ensure_existing[OF r(1)] .
  then show ?thesis
    by (simp add: runMigrations_def Let_def ms run_pending_nothing[OF all])
qed

theorem runMigrations_idempotent_witness:
  "keeps_tracking demo_run_sql \<and>
   fst (runMigrations demo_run_sql demo_checksum demo_embedded 5 demo_database MemorySubsystem) = Inr 2 \<and>
   runMigrations demo_run_sql demo_checksum demo_embedded 9
     (snd (runMigrations demo_run_sql demo_checksum demo_embedded 5 demo_database MemorySubsystem)) MemorySubsystem
   = (Inr 0, snd (runMigrations demo_run_sql demo_checksum demo_embedded 5 demo_database MemorySubsystem))"
proof -
  have frame: "keeps_tracking demo_run_sql"
    by (auto simp: keeps_tracking_def demo_run_sql_def)
  have first: "fst (runMigrations demo_run_sql demo_checksum demo_embedded 5 demo_database MemorySubsystem) = Inr 2"
    by (simp add: runMigrations_def getMigrations_def demo_embedded_def parseFilename_def parseInt_def is_digit_def
        ensureMigrationTable_def getCurrentVersion_def demo_database_def apply_migration_def demo_run_sql_def
        Let_def)
  then have "runMigrations demo_run_sql demo_checksum demo_embedded 5 demo_database MemorySubsystem =
     (Inr 2, snd (runMigrations demo_run_sql demo_checksum demo_embedded 5 demo_database MemorySubsystem))"
    by (metis prod.collapse)
  from runMigrations_idempotent[OF frame this, of 9] frame first show ?thesis by simp
qed

section \<open>Tree engine: ancestors follow the parent links\<close>



lemma filter_by_id:
  "distinct (map c_id db) \<Longrightarrow>
   filter (\<lambda>c. c_id c = i) db = (case getById db i of None \<Rightarrow> [] | Some c \<Rightarrow> [c])"
proof (induction db)
  case Nil
  then show ?case by (simp add: getById_def)
next
  case (Cons a db)
  show ?case
  proof (cases "c_id a = i")
    case False
    with Cons show ?thesis by (simp add: getById_def)
  next
    case True
    with Cons.prems have "i \<notin> set (map c_id db)" by auto
    then have "filter (\<lambda>c. c_id c = i) db = []" by (auto simp: filter_empty_conv)
    with True show ?thesis by (simp add: getById_def)
  qed
qed

lemma cte_empty: "cte_ancestors db [] acc = Some acc"
  by (simp add: cte_ancestors.simps)

lemma cte_single:
  "cte_ancestors db [(c, l)] acc =
     cte_ancestors db (map (\<lambda>x. (x, l + 1)) (filter (\<lambda>x. c_parent_id c = Some (c_id x)) db)) (acc @ [(c, l)])"
  by (subst cte_ancestors.simps) simp

lemma join_parent:
  "filter (\<lambda>x. p = c_id x) db = filter (\<lambda>x. c_id x = p) db"
  by (rule filter_cong) auto

lemma cte_chain:
  assumes chain: "parent_chain db i cs" and pk: "distinct (map c_id db)"
  shows "cte_ancestors db (map (\<lambda>c. (c, l)) (filter (\<lambda>c. c_id c = i) db)) acc = Some (acc @ with_levels l cs)"
  using chain pk
proof (induction arbitrary: l acc rule: parent_chain.induct)
  case (absent db i)
  then show ?case by (simp add: filter_by_id cte_empty)
next
  case (root db i c)
  then show ?case by (simp add: filter_by_id cte_single cte_empty)
next
  case (step db i c p cs)
  have "cte_ancestors db (map (\<lambda>c. (c, l)) (filter (\<lambda>c. c_id c = i) db)) acc =
        cte_ancestors db (map (\<lambda>x. (x, l + 1)) (filter (\<lambda>x. c_id x = p) db)) (acc @ [(c, l)])"
  proof -
    have "filter (\<lambda>c. c_id c = i) db = [c]"
      using step.hyps(1) step.prems by (simp add: filter_by_id)
    then show ?thesis
      using step.hyps(2) by (simp add: cte_single join_parent)
  qed
  also have "\<dots> = Some ((acc @ [(c, l)]) @ with_levels (l + 1) cs)"
    using step.IH[OF step.prems] .
  finally show ?case by simp
qed

lemma levels_of_with_levels: "map snd (with_levels l cs) = map (\<lambda>k. l + int k) [0..<length cs]"
proof (induction cs arbitrary: l)
  case Nil
  then show ?case by simp
next
  case (Cons c cs)
  have "map (\<lambda>k. l + int k) [0..<Suc (length cs)] = l # map (\<lambda>k. l + 1 + int k) [0..<length cs]"
    by (simp add: upt_conv_Cons map_Suc_upt[symmetric] del: upt_Suc)
  with Cons show ?case by simp
qed

lemma insort_key_last:
  "\<forall>y\<in>set ys. f y < f x \<Longrightarrow> insort_key f x ys = ys @ [x]"
  by (induction ys) auto

lemma order_by_level_desc_chain:
  "order_by_level_desc (with_levels l cs) = rev (with_levels l cs)"
proof (induction cs arbitrary: l)
  case Nil
  then show ?case by (simp add: order_by_level_desc_def)
next
  case (Cons c cs)
  have "\<forall>y\<in>set (with_levels (l + 1) cs). - snd y < - l"
  proof
    fix y assume "y \<in> set (with_levels (l + 1) cs)"
    then have "snd y \<in> snd ` set (with_levels (l + 1) cs)" by (rule imageI)
    then have "snd y \<in> set (map snd (with_levels (l + 1) cs))" by simp
    then show "- snd y < - l" by (auto simp: levels_of_with_levels)
  qed
  then have "\<forall>y\<in>set (rev (with_levels (l + 1) cs)). (\<lambda>r. - snd r) y < (\<lambda>r. - snd r) (c, l)" by simp
  from insort_key_last[OF this]
  show ?case using Cons.IH[of "l + 1"] by (simp add: order_by_level_desc_def)
qed



lemma cte_returns_chain:
  assumes ret: "cte_ancestors db queue acc = Some y"
  shows "distinct (map c_id db) \<longrightarrow>
         (\<forall>i l. queue = map (\<lambda>c. (c, l)) (filter (\<lambda>c. c_id c = i) db) \<longrightarrow> (\<exists>cs. parent_chain db i cs))"
proof (rule cte_ancestors.raw_induct[where P = "\<lambda>db queue acc y. distinct (map c_id db) \<longrightarrow>
         (\<forall>i l. queue = map (\<lambda>c. (c, l)) (filter (\<lambda>c. c_id c = i) db) \<longrightarrow> (\<exists>cs. parent_chain db i cs))", OF _ ret])
  fix cte :: "chunks_table \<Rightarrow> ChunkWithLevel list \<Rightarrow> ChunkWithLevel list \<Rightarrow> ChunkWithLevel list option"
    and db queue result y
  assume IH: "\<And>d q r z. cte d q r = Some z \<Longrightarrow> distinct (map c_id d) \<longrightarrow>
         (\<forall>i l. q = map (\<lambda>c. (c, l)) (filter (\<lambda>c. c_id c = i) d) \<longrightarrow> (\<exists>cs. parent_chain d i cs))"
    and eq: "(case queue of [] \<Rightarrow> Some result
      | a # rest \<Rightarrow>
          cte db
           (rest @ map (\<lambda>c. (c, snd a + 1)) (filter (\<lambda>c. c_parent_id (fst a) = Some (c_id c)) db))
           (result @ [a])) = Some y"
  show "distinct (map c_id db) \<longrightarrow>
         (\<forall>i l. queue = map (\<lambda>c. (c, l)) (filter (\<lambda>c. c_id c = i) db) \<longrightarrow> (\<exists>cs. parent_chain db i cs))"
  proof (intro impI allI)
    fix i l
    assume pk: "distinct (map c_id db)"
      and q: "queue = map (\<lambda>c. (c, l)) (filter (\<lambda>c. c_id c = i) db)"
    show "\<exists>cs. parent_chain db i cs"
    proof (cases "getById db i")
      case None
      then show ?thesis using parent_chain.absent by blast
    next
      case (Some c)
      then have qc: "queue = [(c, l)]" using q pk by (simp add: filter_by_id)
      show ?thesis
      proof (cases "c_parent_id c")
        case None
        with Some show ?thesis using parent_chain.root by blast
      next
        case (Some p)
        from eq have run: "cte db (map (\<lambda>x. (x, l + 1)) (filter (\<lambda>x. c_id x = p) db)) (result @ [(c, l)]) = Some y"
          by (simp add: qc Some join_parent)
        from IH[OF run] pk obtain cs where "parent_chain db p cs" by blast
        with \<open>getById db i = Some c\<close> Some show ?thesis using parent_chain.step by blast
      qed
    qed
  qed
qed

lemma parent_chain_unique:
  "parent_chain db i cs \<Longrightarrow> parent_chain db i cs' \<Longrightarrow> cs = cs'"
proof (induction arbitrary: cs' rule: parent_chain.induct)
  case (absent db i)
  then show ?case by (auto elim: parent_chain.cases)
next
  case (root db i c)
  from root.prems root.hyps show ?case by (auto elim: parent_chain.cases)
next
  case (step db i c p cs)
  from step.prems step.hyps(1,2) obtain cs'' where "cs' = c # cs''" "parent_chain db p cs''"
    by (auto elim: parent_chain.cases)
  with step.IH show ?case by blast
qed

text \<open>
  Claim C8. With the ids of the table distinct (the primary key): whenever following
  \<^verbatim>\<open>parent_id\<close> from the chunk \<open>i\<close> reaches a root, giving the chain \<open>cs\<close> from the chunk
  to the root, \<open>getAncestors\<close> returns and its result is that chain in root-first
  order, each chunk tagged with its distance from the start (0 at the start chunk);
  for an id that names no row it returns the empty sequence. Conversely, whatever
  \<open>getAncestors\<close> returns is such a chain.
\<close>

theorem getAncestors_follows_parents:
  assumes pk: "distinct (map c_id db)"
  shows "(parent_chain db i cs \<longrightarrow> getAncestors db i = Some (rev (with_levels 0 cs))) \<and>
         (getById db i = None \<longrightarrow> getAncestors db i = Some []) \<and>
         (\<forall>rows. getAncestors db i = Some rows \<longrightarrow>
            (\<exists>chain. parent_chain db i chain \<and> rows = rev (with_levels 0 chain)))"
proof (intro conjI impI allI)
  assume "parent_chain db i cs"
  then show "getAncestors db i = Some (rev (with_levels 0 cs))"
    using cte_chain[OF _ pk, of i cs 0 "[]"] by (simp add: getAncestors_def order_by_level_desc_chain)
next
  assume "getById db i = None"
  then have "parent_chain db i []" by (rule parent_chain.absent)
  then show "getAncestors db i = Some []"
    using cte_chain[OF _ pk, of i "[]" 0 "[]"] by (simp add: getAncestors_def order_by_level_desc_def)
next
  fix rows assume r: "getAncestors db i = Some rows"
  then obtain y where "cte_ancestors db (map (\<lambda>c. (c, 0)) (filter (\<lambda>c. c_id c = i) db)) [] = Some y"
    by (auto simp: getAncestors_def)
  from cte_returns_chain[OF this] pk obtain chain where c: "parent_chain db i chain" by blast
  then have "getAncestors db i = Some (rev (with_levels 0 chain))"
    using cte_chain[OF _ pk, of i chain 0 "[]"] by (simp add: getAncestors_def order_by_level_desc_chain)
  with r c show "\<exists>chain. parent_chain db i chain \<and> rows = rev (with_levels 0 chain)" by auto
qed

theorem getAncestors_follows_parents_witness:
  "distinct (map c_id demo_tree) \<and>
   parent_chain demo_tree ''ch_a'' [demo_tree ! 0, demo_tree ! 2, demo_tree ! 3] \<and>
   getAncestors demo_tree ''ch_a'' = Some [(demo_tree ! 3, 2), (demo_tree ! 2, 1), (demo_tree ! 0, 0)] \<and>
   getById demo_tree ''ch_missing'' = None \<and>
   getAncestors demo_tree ''ch_missing'' = Some []"
proof -
  have pk: "distinct (map c_id demo_tree)" by (simp add: demo_tree_def demo_chunk_def)
  have t: "parent_chain demo_tree ''ch_t'' [demo_tree ! 3]"
    by (rule parent_chain.root) (simp_all add: getById_def demo_tree_def demo_chunk_def)
  have s: "parent_chain demo_tree ''ch_s'' [demo_tree ! 2, demo_tree ! 3]"
    by (rule parent_chain.step[OF _ _ t]) (simp_all add: getById_def demo_tree_def demo_chunk_def)
  have a: "parent_chain demo_tree ''ch_a'' [demo_tree ! 0, demo_tree ! 2, demo_tree ! 3]"
    by (rule parent_chain.step[OF _ _ s]) (simp_all add: getById_def demo_tree_def demo_chunk_def)
  have m: "getById demo_tree ''ch_missing'' = None"
    by (simp add: getById_def demo_tree_def demo_chunk_def)
  from getAncestors_follows_parents[OF pk, of "''ch_a''" "[demo_tree ! 0, demo_tree ! 2, demo_tree ! 3]"]
       getAncestors_follows_parents[OF pk, of "''ch_missing''" "[]"] pk a m
  show ?thesis by simp
qed

section \<open>Search compiler: the regular expression scan yields the maximal word runs\<close>

declare match_words_from.simps [simp del]


lemma run_facts:
  fixes P :: "'a \<Rightarrow> bool"
  defines "run \<equiv> \<lambda>i s. length (takeWhile P (drop i s))"
  shows run_le: "i + run i s \<le> length s \<or> run i s = 0"
    and run_pos: "i < length s \<Longrightarrow> P (s ! i) \<Longrightarrow> 0 < run i s"
    and run_last: "0 < run i s \<Longrightarrow> P (s ! (i + run i s - 1))"
    and run_stop: "i + run i s < length s \<Longrightarrow> \<not> P (s ! (i + run i s))"
proof -
  have le: "run i s \<le> length (drop i s)" unfolding run_def by (rule length_takeWhile_le)
  then show "i + run i s \<le> length s \<or> run i s = 0" by auto
  show "0 < run i s" if "i < length s" "P (s ! i)"
  proof -
    from that have "drop i s = s ! i # drop (Suc i) s" by (simp add: Cons_nth_drop_Suc)
    with that show ?thesis unfolding run_def by simp
  qed
  show "P (s ! (i + run i s - 1))" if pos: "0 < run i s"
  proof -
    let ?j = "run i s - 1"
    have j: "?j < length (takeWhile P (drop i s))" using pos unfolding run_def by simp
    then have "takeWhile P (drop i s) ! ?j \<in> set (takeWhile P (drop i s))" by (rule nth_mem)
    then have "P (takeWhile P (drop i s) ! ?j)" by (rule set_takeWhileD[THEN conjunct2])
    moreover have "takeWhile P (drop i s) ! ?j = drop i s ! ?j" using j by (rule takeWhile_nth)
    moreover have "i + ?j < length s" using le pos by auto
    then have "drop i s ! ?j = s ! (i + ?j)" by simp
    moreover have "i + ?j = i + run i s - 1" using pos by simp
    ultimately show ?thesis by simp
  qed
  show "\<not> P (s ! (i + run i s))" if "i + run i s < length s"
  proof -
    from that have "length (takeWhile P (drop i s)) < length (drop i s)" unfolding run_def by simp
    then have "\<not> P (drop i s ! length (takeWhile P (drop i s)))" by (rule nth_length_takeWhile)
    moreover have "drop i s ! run i s = s ! (i + run i s)" using that by simp
    ultimately show ?thesis unfolding run_def by simp
  qed
qed

lemma match_word_at_eq:
  "match_word_at s i =
     (if run_start s i then Some (i + length (takeWhile is_word_char (drop i s))) else None)"
proof (cases "run_start s i")
  case True
  let ?run = "length (takeWhile is_word_char (drop i s))"
  from True have i: "i < length s" "is_word_char (s ! i)" by (simp_all add: run_start_def)
  have b: "word_boundary s i" using True by (auto simp: run_start_def word_boundary_def)
  have pos: "0 < ?run" using run_pos[where P=is_word_char, OF i] .
  have le: "i + ?run \<le> length s" using run_le[of i is_word_char s] pos by auto
  have last: "is_word_char (s ! (i + ?run - 1))" using run_last[where P=is_word_char, OF pos] .
  have stop: "i + ?run < length s \<Longrightarrow> \<not> is_word_char (s ! (i + ?run))" by (rule run_stop[where P=is_word_char])
  have lt1: "i + ?run - 1 < length s" and gt0: "0 < i + ?run" using pos le by arith+
  have e: "word_boundary s (i + ?run)"
    unfolding word_boundary_def using lt1 gt0 last stop by (cases "i + ?run < length s") simp_all
  from pos obtain k where k: "?run = Suc k" by (cases ?run) auto
  have "[1..<?run + 1] = [1..<?run] @ [?run]" by (simp add: k)
  then have "rev [1..<?run + 1] = ?run # rev [1..<?run]" by (simp only: rev_append rev.simps append.simps)
  then have "List.find (\<lambda>n. word_boundary s (i + n)) (rev [1..<?run + 1]) = Some ?run"
    using e by (simp only: find.simps if_True)
  with b True show ?thesis by (simp add: match_word_at_def Let_def)
next
  case False
  show ?thesis
  proof (cases "word_boundary s i")
    case nb: False
    with False show ?thesis by (simp add: match_word_at_def)
  next
    case b: True
    with False have "\<not> (i < length s \<and> is_word_char (s ! i))"
      by (auto simp: run_start_def word_boundary_def)
    then have "takeWhile is_word_char (drop i s) = []"
      by (cases "i < length s") (simp_all add: Cons_nth_drop_Suc[symmetric])
    with False b show ?thesis by (simp add: match_word_at_def Let_def)
  qed
qed

lemma runs_from_split:
  "runs_from cur s =
     (if cur @ takeWhile is_word_char s = [] then [] else [cur @ takeWhile is_word_char s]) @
     (case dropWhile is_word_char s of [] \<Rightarrow> [] | c # cs \<Rightarrow> runs_from [] cs)"
  by (induction s arbitrary: cur) auto

lemma word_runs_Nil: "word_runs [] = []"
  by (simp add: word_runs_def)

lemma word_runs_skip: "\<not> is_word_char c \<Longrightarrow> word_runs (c # cs) = word_runs cs"
  by (simp add: word_runs_def)

lemma word_runs_take:
  assumes "is_word_char c"
  shows "word_runs (c # cs) = takeWhile is_word_char (c # cs) # word_runs (dropWhile is_word_char (c # cs))"
proof -
  have "word_runs (dropWhile is_word_char (c # cs)) =
        (case dropWhile is_word_char (c # cs) of [] \<Rightarrow> [] | d # ds \<Rightarrow> runs_from [] ds)"
  proof (cases "dropWhile is_word_char (c # cs)")
    case Nil
    then show ?thesis by (simp add: word_runs_def)
  next
    case (Cons d ds)
    then have "\<not> is_word_char d" using hd_dropWhile[of is_word_char "c # cs"] by auto
    with Cons show ?thesis by (simp add: word_runs_def)
  qed
  moreover have "word_runs (c # cs) = [takeWhile is_word_char (c # cs)] @
        (case dropWhile is_word_char (c # cs) of [] \<Rightarrow> [] | d # ds \<Rightarrow> runs_from [] ds)"
    unfolding word_runs_def using assms by (subst runs_from_split) simp
  ultimately show ?thesis by simp
qed

lemma match_words_from_runs:
  "\<not> inside_run s i \<Longrightarrow> match_words_from s i = word_runs (drop i s)"
proof (induction s i rule: match_words_from.induct)
  case (1 s i)
  show ?case
  proof (cases "i > length s")
    case True
    then show ?thesis by (subst match_words_from.simps) (simp add: word_runs_Nil)
  next
    case le: False
    let ?run = "length (takeWhile is_word_char (drop i s))"
    show ?thesis
    proof (cases "run_start s i")
      case True
      then have i: "i < length s" "is_word_char (s ! i)" by (simp_all add: run_start_def)
      have m: "match_word_at s i = Some (i + ?run)" using True by (simp add: match_word_at_eq)
      have pos: "0 < ?run" using run_pos[where P=is_word_char, OF i] .
      have gt: "\<not> i + ?run \<le> i" using pos by simp
      have stop: "i + ?run < length s \<Longrightarrow> \<not> is_word_char (s ! (i + ?run))" by (rule run_stop[where P=is_word_char])
      then have ok: "\<not> inside_run s (i + ?run)" by (auto simp: inside_run_def)
      have IH: "match_words_from s (i + ?run) = word_runs (drop (i + ?run) s)"
        using "1.IH"(3)[OF le m gt ok] .
      have d: "drop i s = s ! i # drop (Suc i) s" using i by (simp add: Cons_nth_drop_Suc)
      have "word_runs (drop i s) = takeWhile is_word_char (drop i s) # word_runs (dropWhile is_word_char (drop i s))"
        using word_runs_take[OF i(2), of "drop (Suc i) s"] by (simp only: d)
      moreover have "takeWhile is_word_char (drop i s) = take ?run (drop i s)"
        by (rule takeWhile_eq_take)
      moreover have "dropWhile is_word_char (drop i s) = drop (i + ?run) s"
        by (simp add: dropWhile_eq_drop add.commute)
      ultimately have "word_runs (drop i s) = take ?run (drop i s) # word_runs (drop (i + ?run) s)"
        by simp
      moreover have "match_words_from s i = take ?run (drop i s) # match_words_from s (i + ?run)"
        using le m gt by (subst match_words_from.simps) simp
      ultimately show ?thesis using IH by simp
    next
      case False
      then have m: "match_word_at s i = None" by (simp add: match_word_at_eq)
      from False "1.prems" have nw: "i = length s \<or> \<not> is_word_char (s ! i)"
        using le by (auto simp: run_start_def inside_run_def)
      then have ok: "\<not> inside_run s (i + 1)" by (auto simp: inside_run_def)
      have IH: "match_words_from s (i + 1) = word_runs (drop (i + 1) s)"
        using "1.IH"(1)[OF le m ok] .
      have "word_runs (drop i s) = word_runs (drop (i + 1) s)"
      proof (cases "i = length s")
        case True
        then show ?thesis by simp
      next
        case ne: False
        with le have lt: "i < length s" by simp
        with nw have "\<not> is_word_char (s ! i)" by simp
        moreover have "drop i s = s ! i # drop (i + 1) s" using lt by (simp add: Cons_nth_drop_Suc)
        ultimately show ?thesis by (simp add: word_runs_skip)
      qed
      moreover have "match_words_from s i = match_words_from s (i + 1)"
        using le m by (subst match_words_from.simps) simp
      ultimately show ?thesis using IH by simp
    qed
  qed
qed

lemma match_words_from_0: "match_words_from s 0 = word_runs s"
  using match_words_from_runs[of s 0] by (simp add: inside_run_def)


lemma upper_is:
  "upper_ascii c = CHR ''A'' \<longleftrightarrow> c = CHR ''a'' \<or> c = CHR ''A''"
  "upper_ascii c = CHR ''N'' \<longleftrightarrow> c = CHR ''n'' \<or> c = CHR ''N''"
  "upper_ascii c = CHR ''D'' \<longleftrightarrow> c = CHR ''d'' \<or> c = CHR ''D''"
  "upper_ascii c = CHR ''O'' \<longleftrightarrow> c = CHR ''o'' \<or> c = CHR ''O''"
  "upper_ascii c = CHR ''R'' \<longleftrightarrow> c = CHR ''r'' \<or> c = CHR ''R''"
  "upper_ascii c = CHR ''T'' \<longleftrightarrow> c = CHR ''t'' \<or> c = CHR ''T''"
  "upper_ascii c = CHR ''E'' \<longleftrightarrow> c = CHR ''e'' \<or> c = CHR ''E''"
  by (auto simp: upper_ascii_def split: if_splits)

lemma lower_is:
  "lower_ascii c = CHR ''a'' \<longleftrightarrow> c = CHR ''a'' \<or> c = CHR ''A''"
  "lower_ascii c = CHR ''n'' \<longleftrightarrow> c = CHR ''n'' \<or> c = CHR ''N''"
  "lower_ascii c = CHR ''d'' \<longleftrightarrow> c = CHR ''d'' \<or> c = CHR ''D''"
  "lower_ascii c = CHR ''o'' \<longleftrightarrow> c = CHR ''o'' \<or> c = CHR ''O''"
  "lower_ascii c = CHR ''r'' \<longleftrightarrow> c = CHR ''r'' \<or> c = CHR ''R''"
  "lower_ascii c = CHR ''t'' \<longleftrightarrow> c = CHR ''t'' \<or> c = CHR ''T''"
  "lower_ascii c = CHR ''e'' \<longleftrightarrow> c = CHR ''e'' \<or> c = CHR ''E''"
  by (auto simp: lower_ascii_def split: if_splits)

lemma operator_iff_reserved: "toUpperCase w \<in> ftsOperators \<longleftrightarrow> reserved_word w"
  unfolding toUpperCase_def ftsOperators_def reserved_word_def
  by (simp add: map_eq_Cons_conv upper_is lower_is)


lemma valid_filter_eq:
  "filter (\<lambda>w. length w \<ge> 2 \<and> toUpperCase w \<notin> ftsOperators) ws =
   filter (\<lambda>w. \<not> length w < 2 \<and> \<not> reserved_word w) ws"
  by (rule filter_cong) (auto simp: operator_iff_reserved)

lemma join_quoted: "join '' OR '' (map (\<lambda>w. CHR 0x22 # w @ [CHR 0x22]) ws) = or_joined ws"
  by (induction ws rule: or_joined.induct) simp_all

lemma or_joined_empty_iff: "or_joined ws = [] \<longleftrightarrow> ws = []"
  by (induction ws rule: or_joined.induct) simp_all

lemma match_words_eq: "match_words s = (if word_runs s = [] then None else Some (word_runs s))"
  by (simp add: match_words_def match_words_from_0 split: list.splits)

lemma kept_subset: "kept_runs s \<noteq> [] \<Longrightarrow> word_runs s \<noteq> []"
  by (auto simp: kept_runs_def)

lemma escapeFtsQuery_eq: "escapeFtsQuery q = compiled_expression q"
proof (cases "word_runs q = []")
  case True
  then show ?thesis
    by (simp add: escapeFtsQuery_def match_words_eq compiled_expression_def kept_runs_def)
next
  case False
  show ?thesis
  proof (cases "kept_runs q = []")
    case True
    with False show ?thesis
      by (simp add: escapeFtsQuery_def match_words_eq compiled_expression_def Let_def
          valid_filter_eq kept_runs_def[symmetric])
  next
    case k: False
    with False show ?thesis
      by (simp add: escapeFtsQuery_def match_words_eq compiled_expression_def Let_def
          valid_filter_eq kept_runs_def[symmetric] join_quoted)
  qed
qed

lemma runs_from_set:
  "w \<in> set (runs_from cur s) \<Longrightarrow> set w \<subseteq> set cur \<union> {c \<in> set s. is_word_char c}"
proof (induction s arbitrary: cur)
  case Nil
  then show ?case by (auto split: if_splits)
next
  case (Cons c cs)
  show ?case
  proof (cases "is_word_char c")
    case True
    with Cons.prems have "w \<in> set (runs_from (cur @ [c]) cs)" by simp
    from Cons.IH[OF this] True show ?thesis by auto
  next
    case False
    with Cons.prems have "w = cur \<or> w \<in> set (runs_from [] cs)" by (auto split: if_splits)
    then show ?thesis
    proof
      assume "w = cur" then show ?thesis by auto
    next
      assume "w \<in> set (runs_from [] cs)"
      from Cons.IH[OF this] show ?thesis by auto
    qed
  qed
qed

lemma kept_has_word_char:
  assumes "kept_runs q \<noteq> []"
  shows "\<exists>c\<in>set q. is_word_char c"
proof -
  from assms obtain w where w: "w \<in> set (word_runs q)" and len: "\<not> length w < 2"
    by (auto simp: kept_runs_def filter_empty_conv)
  from len have "w \<noteq> []" by auto
  then have h: "hd w \<in> set w" by simp
  from w have "set w \<subseteq> {c \<in> set q. is_word_char c}"
    using runs_from_set[of w "[]" q] by (simp add: word_runs_def)
  with h have "hd w \<in> set q \<and> is_word_char (hd w)" by blast
  then show ?thesis by blast
qed

lemma word_char_not_space: "is_word_char c \<Longrightarrow> \<not> is_white_space c"
  by (auto simp: is_word_char_def is_white_space_def Let_def)

lemma dropWhile_keeps: "\<exists>c\<in>set s. \<not> P c \<Longrightarrow> dropWhile P s \<noteq> []"
  by (induction s) auto

lemma trim_nonempty:
  assumes "\<exists>c\<in>set s. \<not> is_white_space c"
  shows "trim s \<noteq> []"
proof -
  from assms have "dropWhile is_white_space s \<noteq> []" by (rule dropWhile_keeps)
  moreover have "\<exists>c\<in>set (dropWhile is_white_space s). \<not> is_white_space c"
  proof -
    from \<open>dropWhile is_white_space s \<noteq> []\<close> have "\<not> is_white_space (hd (dropWhile is_white_space s))"
      by (rule hd_dropWhile)
    moreover have "hd (dropWhile is_white_space s) \<in> set (dropWhile is_white_space s)"
      using \<open>dropWhile is_white_space s \<noteq> []\<close> by simp
    ultimately show ?thesis by blast
  qed
  then have "\<exists>c\<in>set (rev (dropWhile is_white_space s)). \<not> is_white_space c" by simp
  then have "dropWhile is_white_space (rev (dropWhile is_white_space s)) \<noteq> []" by (rule dropWhile_keeps)
  then show ?thesis by (simp add: trim_def)
qed

text \<open>
  Claim C5. For every input string the compiler (\<open>escapeFtsQuery\<close>, and the copy inside
  the chunk search) produces the expression made of the maximal runs of word
  characters, without the runs shorter than two characters and the reserved words in
  any letter case, each in double quotes, joined by \<open>'' OR ''\<close>. When no run remains,
  both searches return the empty result and execute no query; otherwise they execute
  one query, with that expression.
\<close>

theorem search_compiler_is_word_runs_or_joined:
  "escapeFtsQuery q = compiled_expression q \<and>
   (if kept_runs q = []
    then escapeFtsQuery q = [] \<and> searchMemories db q opts = ([], []) \<and>
         chunk_search cdb maxResults q copts = ([], [])
    else snd (searchMemories db q opts) = [compiled_expression q] \<and>
         snd (chunk_search cdb maxResults q copts) = [compiled_expression q])"
proof (cases "kept_runs q = []")
  case True
  then have e: "escapeFtsQuery q = []" by (simp add: escapeFtsQuery_eq compiled_expression_def)
  have s: "searchMemories db q opts = ([], [])" by (simp add: searchMemories_def e Let_def)
  have c: "chunk_search cdb maxResults q copts = ([], [])"
    using True
    by (simp add: chunk_search_def Let_def match_words_eq valid_filter_eq kept_runs_def[symmetric])
  from True e s c show ?thesis by (simp add: escapeFtsQuery_eq)
next
  case False
  then have ne: "compiled_expression q \<noteq> []" by (simp add: compiled_expression_def or_joined_empty_iff)
  from kept_has_word_char[OF False] obtain c where c: "c \<in> set q" "is_word_char c" by blast
  then have q: "q \<noteq> []" by auto
  have t: "trim q \<noteq> []" using c word_char_not_space by (intro trim_nonempty) blast
  have s: "snd (searchMemories db q opts) = [compiled_expression q]"
    using q ne by (simp add: searchMemories_def escapeFtsQuery_eq Let_def)
  have cs: "snd (chunk_search cdb maxResults q copts) = [compiled_expression q]"
    using q t False kept_subset[OF False]
    by (simp add: chunk_search_def Let_def match_words_eq valid_filter_eq kept_runs_def[symmetric]
        join_quoted compiled_expression_def)
  from False s cs show ?thesis by (simp add: escapeFtsQuery_eq)
qed

lemmas search_eval = escapeFtsQuery_def match_words_def match_word_at_def word_boundary_def
  is_word_char_def toUpperCase_def upper_ascii_def ftsOperators_def Let_def searchMemories_def
  chunk_search_def trim_def is_white_space_def

theorem search_compiler_is_word_runs_or_joined_witness:
  "escapeFtsQuery ''Result<T, E> or x for(near_by)'' = ''\"Result\" OR \"for\" OR \"near_by\"'' \<and>
   compiled_expression ''Result<T, E> or x for(near_by)'' = ''\"Result\" OR \"for\" OR \"near_by\"'' \<and>
   kept_runs ''a NOT (b)'' = [] \<and>
   searchMemories demo_fts ''a NOT (b)'' None = ([], []) \<and>
   chunk_search demo_chunk_fts 5 ''a NOT (b)'' None = ([], []) \<and>
   snd (searchMemories demo_fts ''Result<T, E> or x for(near_by)'' None) = [''\"Result\" OR \"for\" OR \"near_by\"'']"
proof -
  have k1: "kept_runs ''a NOT (b)'' = []"
    by (simp add: kept_runs_def word_runs_def is_word_char_def reserved_word_def lower_ascii_def)
  have k2: "kept_runs ''Result<T, E> or x for(near_by)'' = [''Result'', ''for'', ''near_by'']"
    by (simp add: kept_runs_def word_runs_def is_word_char_def reserved_word_def lower_ascii_def)
  from search_compiler_is_word_runs_or_joined[of "''a NOT (b)''" demo_fts None demo_chunk_fts 5 None]
       search_compiler_is_word_runs_or_joined[of "''Result<T, E> or x for(near_by)''" demo_fts None demo_chunk_fts 5 None]
       k1 k2
  show ?thesis by (simp add: compiled_expression_def)
qed

section \<open>Keyword detector: code is stripped, the rest is matched as whole words\<close>


lemma fence_simps: "fence = [backtick, backtick, backtick]" "length fence = 3"
  by (simp_all add: fence_def)

lemma match_fence_plain: "c \<noteq> backtick \<Longrightarrow> match_fence_at (c # s) = None"
  by (auto simp: match_fence_at_def fence_def)

lemma replace_all_Nil: "replace_all m [] = []"
  by (subst replace_all.simps) simp

lemma replace_all_keep: "m (c # s) = None \<Longrightarrow> replace_all m (c # s) = c # replace_all m s"
  by (subst replace_all.simps) simp

lemma replace_all_drop:
  "m (c # s) = Some n \<Longrightarrow> 0 < n \<Longrightarrow> replace_all m (c # s) = replace_all m (drop n (c # s))"
  by (subst replace_all.simps) simp

lemma fence_pass_plain:
  "plain_text p \<Longrightarrow> replace_all match_fence_at (p @ s) = p @ replace_all match_fence_at s"
proof (induction p)
  case Nil
  then show ?case by simp
next
  case (Cons c p)
  then have c: "c \<noteq> backtick" and p: "plain_text p" by (auto simp: plain_text_def)
  have "replace_all match_fence_at (c # (p @ s)) = c # replace_all match_fence_at (p @ s)"
    using match_fence_plain[OF c] by (rule replace_all_keep)
  with Cons.IH[OF p] show ?case by simp
qed

lemma find_upt_first:
  assumes "k < m" and "P k" and "\<And>j. j < k \<Longrightarrow> \<not> P j"
  shows "List.find P [0..<m] = Some k"
proof -
  have "[0..<m] = [0..<k] @ k # [Suc k..<m]"
    using assms(1) by (metis upt_add_eq_append upt_conv_Cons le0 less_imp_le_nat add_0 le_add_diff_inverse)
  moreover have "List.find P [0..<k] = None"
    using assms(3) by (simp add: find_None_iff)
  ultimately show ?thesis using assms(2) by (simp add: find_append)
qed


lemma take3_inside:
  assumes "n < length b"
  shows "take 3 (drop n (b @ fence @ s)) = take 3 (drop n (b @ fence))"
proof -
  have "drop n (b @ fence @ s) = drop n (b @ fence) @ s" using assms by simp
  moreover have "3 \<le> length (drop n (b @ fence))" using assms by (simp add: fence_simps)
  ultimately show ?thesis by simp
qed

lemma match_fence_block:
  assumes "well_formed_code (Fenced b)"
  shows "match_fence_at (fence @ b @ fence @ s) = Some (6 + length b)"
proof -
  let ?S = "fence @ b @ fence @ s"
  let ?P = "\<lambda>n. take 3 (drop (3 + n) ?S) = fence"
  have d: "drop (3 + n) ?S = drop n (b @ fence @ s)" for n by (simp add: fence_simps(2))
  have k: "length b < length ?S" by (simp add: fence_simps(2))
  have Pk: "?P (length b)" by (simp add: d fence_simps(2))
  have notP: "\<not> ?P j" if "j < length b" for j
  proof -
    from assms that have "take 3 (drop j (b @ fence)) \<noteq> fence" by (simp add: list_all_iff)
    with take3_inside[OF that] show ?thesis by (simp only: d) simp
  qed
  have "List.find ?P [0..<length ?S] = Some (length b)"
    using k Pk notP by (rule find_upt_first)
  moreover have "take 3 ?S = fence" by (simp add: fence_simps(2))
  ultimately show ?thesis by (simp add: match_fence_at_def)
qed

lemma fence_pass_block:
  assumes "well_formed_code (Fenced b)"
  shows "replace_all match_fence_at (fence @ b @ fence @ s) = replace_all match_fence_at s"
proof -
  have e: "fence @ b @ fence @ s = backtick # ([backtick, backtick] @ b @ fence @ s)"
    by (simp add: fence_simps(1))
  have m: "match_fence_at (backtick # ([backtick, backtick] @ b @ fence @ s)) = Some (6 + length b)"
    using match_fence_block[OF assms, of s] by (simp only: e)
  have "replace_all match_fence_at (backtick # ([backtick, backtick] @ b @ fence @ s)) =
        replace_all match_fence_at (drop (6 + length b) (backtick # ([backtick, backtick] @ b @ fence @ s)))"
    using m by (rule replace_all_drop[where m=match_fence_at]) simp
  moreover have "drop (6 + length b) (fence @ b @ fence @ s) = s"
    by (simp add: fence_simps(2))
  ultimately show ?thesis by (simp only: e)
qed

lemma match_fence_short: "take 3 s \<noteq> fence \<Longrightarrow> match_fence_at s = None"
  by (simp add: match_fence_at_def)

lemma fence_pass_inline:
  assumes "well_formed_code (Inline b)" and "take 2 s \<noteq> [backtick, backtick]"
  shows "replace_all match_fence_at (backtick # b @ [backtick] @ s) =
         backtick # b @ [backtick] @ replace_all match_fence_at s"
proof -
  from assms(1) obtain x xs where b: "b = x # xs" and x: "x \<noteq> backtick" and pb: "plain_text b"
    by (cases b) (auto simp: plain_text_def)
  have 1: "match_fence_at (backtick # b @ [backtick] @ s) = None"
    by (rule match_fence_short) (simp add: b fence_simps x)
  have 2: "match_fence_at (backtick # s) = None"
  proof (rule match_fence_short)
    have "take 3 (backtick # s) = backtick # take 2 s"
      by (simp add: numeral_3_eq_3 numeral_2_eq_2)
    with assms(2) show "take 3 (backtick # s) \<noteq> fence" by (simp add: fence_simps)
  qed
  have "replace_all match_fence_at (backtick # b @ [backtick] @ s) =
        backtick # replace_all match_fence_at (b @ ([backtick] @ s))"
    using replace_all_keep[where m=match_fence_at, OF 1] by simp
  also have "\<dots> = backtick # b @ replace_all match_fence_at (backtick # s)"
    using fence_pass_plain[OF pb, of "[backtick] @ s"] by simp
  also have "\<dots> = backtick # b @ backtick # replace_all match_fence_at s"
    using replace_all_keep[where m=match_fence_at, OF 2] by simp
  finally show ?thesis by simp
qed

lemma no_fence_after_span:
  assumes "plain_text p" and "p \<noteq> [] \<or> \<not> fence_follows rest" and "well_formed rest"
  shows "take 2 (p @ render rest) \<noteq> [backtick, backtick]"
proof (cases p)
  case (Cons y ys)
  with assms(1) have "y \<noteq> backtick" by (auto simp: plain_text_def)
  with Cons show ?thesis by (simp add: numeral_2_eq_2)
next
  case Nil
  with assms(2) have nf: "\<not> fence_follows rest" by simp
  show ?thesis
  proof (cases rest rule: fence_follows.cases)
    case 1
    with Nil show ?thesis by simp
  next
    case (2 body q rest')
    with nf show ?thesis by simp
  next
    case (3 body q rest')
    with assms(3) obtain x xs where "body = x # xs" and "x \<noteq> backtick"
      by (cases body) (auto simp: plain_text_def)
    with Nil 3 show ?thesis by (simp add: numeral_2_eq_2)
  qed
qed

lemma fence_pass_render:
  "well_formed segs \<Longrightarrow> replace_all match_fence_at (render segs) = without_fences segs"
proof (induction segs rule: without_fences.induct)
  case 1
  then show ?case by (simp add: replace_all_Nil)
next
  case (2 body p rest)
  then have wf: "well_formed_code (Fenced body)" and p: "plain_text p" and r: "well_formed rest"
    by simp_all
  have "replace_all match_fence_at (render ((Fenced body, p) # rest)) =
        replace_all match_fence_at (fence @ body @ fence @ (p @ render rest))" by simp
  also have "\<dots> = replace_all match_fence_at (p @ render rest)"
    using wf by (rule fence_pass_block)
  also have "\<dots> = p @ replace_all match_fence_at (render rest)"
    using p by (rule fence_pass_plain)
  finally show ?case using "2.IH"[OF r] by simp
next
  case (3 body p rest)
  then have wf: "well_formed_code (Inline body)" and p: "plain_text p" and r: "well_formed rest"
    and sep: "p \<noteq> [] \<or> \<not> fence_follows rest"
    by simp_all
  have "replace_all match_fence_at (render ((Inline body, p) # rest)) =
        replace_all match_fence_at (backtick # body @ [backtick] @ (p @ render rest))" by simp
  also have "\<dots> = backtick # body @ [backtick] @ replace_all match_fence_at (p @ render rest)"
    using wf no_fence_after_span[OF p sep r] by (rule fence_pass_inline)
  also have "\<dots> = backtick # body @ [backtick] @ p @ replace_all match_fence_at (render rest)"
    using fence_pass_plain[OF p] by simp
  finally show ?case using "3.IH"[OF r] by simp
qed

lemma match_inline_plain: "c \<noteq> backtick \<Longrightarrow> match_inline_at (c # s) = None"
  by (simp add: match_inline_at_def)

lemma inline_pass_plain:
  "plain_text p \<Longrightarrow> replace_all match_inline_at (p @ s) = p @ replace_all match_inline_at s"
proof (induction p)
  case Nil
  then show ?case by simp
next
  case (Cons c p)
  then have c: "c \<noteq> backtick" and p: "plain_text p" by (auto simp: plain_text_def)
  have "replace_all match_inline_at (c # (p @ s)) = c # replace_all match_inline_at (p @ s)"
    using match_inline_plain[OF c] by (rule replace_all_keep[where m=match_inline_at])
  with Cons.IH[OF p] show ?case by simp
qed

lemma takeWhile_plain:
  "plain_text b \<Longrightarrow> takeWhile (\<lambda>x. x \<noteq> backtick) (b @ backtick # s) = b"
  by (induction b) (auto simp: plain_text_def)

lemma find_head: "P x \<Longrightarrow> List.find P (x # xs) = Some x"
  by simp

lemma match_inline_span:
  assumes "well_formed_code (Inline b)"
  shows "match_inline_at (backtick # b @ backtick # s) = Some (length b + 2)"
proof -
  from assms have ne: "b \<noteq> []" and pb: "plain_text b" by simp_all
  let ?rest = "b @ backtick # s"
  have run: "length (takeWhile (\<lambda>x. x \<noteq> backtick) ?rest) = length b"
    using takeWhile_plain[OF pb] by simp
  from ne obtain k where k: "length b = Suc k" by (cases b) auto
  have "[1..<length b + 1] = [1..<length b] @ [length b]" by (simp add: k)
  then have r: "rev [1..<length b + 1] = length b # rev [1..<length b]"
    by (simp only: rev_append rev.simps append.simps)
  have P: "length b < length ?rest \<and> ?rest ! length b = backtick" by simp
  have "List.find (\<lambda>n. n < length ?rest \<and> ?rest ! n = backtick) (length b # rev [1..<length b])
                   = Some (length b)"
    using P by (rule find_head[where P = "\<lambda>n. n < length ?rest \<and> ?rest ! n = backtick"])
  then have f: "List.find (\<lambda>n. n < length ?rest \<and> ?rest ! n = backtick) (rev [1..<length b + 1])
                   = Some (length b)"
    by (simp only: r)
  show ?thesis
    unfolding match_inline_at_def by (simp only: list.case if_True Let_def run f option.map) simp
qed

lemma inline_pass_span:
  assumes "well_formed_code (Inline b)"
  shows "replace_all match_inline_at (backtick # b @ backtick # s) = replace_all match_inline_at s"
proof -
  have "replace_all match_inline_at (backtick # b @ backtick # s) =
        replace_all match_inline_at (drop (length b + 2) (backtick # b @ backtick # s))"
    using match_inline_span[OF assms] by (rule replace_all_drop[where m=match_inline_at]) simp
  then show ?thesis by simp
qed

lemma inline_pass_without_fences:
  "well_formed segs \<Longrightarrow> replace_all match_inline_at (without_fences segs) = concat (map snd segs)"
proof (induction segs rule: without_fences.induct)
  case 1
  then show ?case by (simp add: replace_all_Nil)
next
  case (2 body p rest)
  then have p: "plain_text p" and r: "well_formed rest" by simp_all
  show ?case using inline_pass_plain[OF p] "2.IH"[OF r] by simp
next
  case (3 body p rest)
  then have wf: "well_formed_code (Inline body)" and p: "plain_text p" and r: "well_formed rest"
    by simp_all
  have "replace_all match_inline_at (without_fences ((Inline body, p) # rest)) =
        replace_all match_inline_at (backtick # body @ backtick # (p @ without_fences rest))" by simp
  also have "\<dots> = replace_all match_inline_at (p @ without_fences rest)"
    using wf by (rule inline_pass_span)
  also have "\<dots> = p @ replace_all match_inline_at (without_fences rest)"
    using p by (rule inline_pass_plain)
  finally show ?case using "3.IH"[OF r] by simp
qed

lemma removeCodeBlocks_segments:
  assumes "plain_text p0" and "well_formed segs"
  shows "removeCodeBlocks (p0 @ render segs) = plain_of p0 segs"
proof -
  have "replace_all match_fence_at (p0 @ render segs) = p0 @ without_fences segs"
    using fence_pass_plain[OF assms(1)] fence_pass_render[OF assms(2)] by simp
  moreover have "replace_all match_inline_at (p0 @ without_fences segs) = p0 @ concat (map snd segs)"
    using inline_pass_plain[OF assms(1)] inline_pass_without_fences[OF assms(2)] by simp
  ultimately show ?thesis by (simp add: removeCodeBlocks_def plain_of_def)
qed


lemma word_upper: "is_word_char (upper_ascii c) = is_word_char c"
proof (cases "map_of (zip ''abcdefghijklmnopqrstuvwxyz'' ''ABCDEFGHIJKLMNOPQRSTUVWXYZ'') c")
  case None
  then show ?thesis by (simp add: upper_ascii_def)
next
  case (Some u)
  then have "(c, u) \<in> set (zip ''abcdefghijklmnopqrstuvwxyz'' ''ABCDEFGHIJKLMNOPQRSTUVWXYZ'')"
    by (rule map_of_SomeD)
  then have "is_word_char c \<and> is_word_char u"
    by (auto simp: is_word_char_def)
  with Some show ?thesis by (simp add: upper_ascii_def)
qed

lemma ci_equal_length: "ci_equal a b \<Longrightarrow> length a = length b"
  unfolding ci_equal_def by (rule map_eq_imp_length_eq)

lemma ci_equal_nth:
  assumes "ci_equal a b" and "n < length a"
  shows "is_word_char (a ! n) = is_word_char (b ! n)"
proof -
  from assms have "map upper_ascii a ! n = map upper_ascii b ! n" by (simp add: ci_equal_def)
  with assms ci_equal_length[OF assms(1)] have "upper_ascii (a ! n) = upper_ascii (b ! n)" by simp
  then show ?thesis using word_upper[of "a ! n"] word_upper[of "b ! n"] by simp
qed

lemma default_keyword_shape:
  "k \<in> set DEFAULT_KEYWORDS \<Longrightarrow> k \<noteq> [] \<and> is_word_char (k ! 0) \<and> is_word_char (k ! (length k - 1))"
  by (auto simp: DEFAULT_KEYWORDS_def is_word_char_def)

lemma pattern_test_iff:
  "pattern_test ks text \<longleftrightarrow> (\<exists>i\<le>length text. \<exists>k\<in>set ks. keyword_matches_at text i k)"
proof (cases "ks = []")
  case True
  then show ?thesis by (simp add: pattern_test_def)
next
  case False
  have "set [0..<length text + 1] = {i. i \<le> length text}" by auto
  then have "(\<exists>i\<in>set [0..<length text + 1]. \<exists>k\<in>set ks. keyword_matches_at text i k) \<longleftrightarrow>
        (\<exists>i\<le>length text. \<exists>k\<in>set ks. keyword_matches_at text i k)"
    by (simp only: Bex_def mem_Collect_eq)
  with False show ?thesis by (simp add: pattern_test_def list_ex_iff)
qed

lemma whole_word_matches:
  assumes k: "k \<in> set DEFAULT_KEYWORDS" and ci: "ci_equal k' k"
    and u: "u = [] \<or> \<not> is_word_char (last u)" and v: "v = [] \<or> \<not> is_word_char (hd v)"
  shows "keyword_matches_at (u @ k' @ v) (length u) k"
proof -
  let ?t = "u @ k' @ v"
  from default_keyword_shape[OF k] have ne: "k \<noteq> []" and h: "is_word_char (k ! 0)"
    and l: "is_word_char (k ! (length k - 1))" by simp_all
  have len: "length k' = length k" using ci by (rule ci_equal_length)
  with ne have ne': "k' \<noteq> []" by auto
  have h': "is_word_char (k' ! 0)" using ci_equal_nth[OF ci, of 0] h ne' by simp
  from ne obtain n where n: "length k = Suc n" by (cases k) auto
  have "n < length k'" using len n by simp
  from ci_equal_nth[OF ci this] have l': "is_word_char (k' ! n)"
    using l n by simp
  have cur: "length u < length ?t \<and> ?t ! length u = k' ! 0"
    using ne' by (cases k') simp_all
  have prev: "\<not> (length u > 0 \<and> length u - 1 < length ?t \<and> is_word_char (?t ! (length u - 1)))"
  proof (cases "u = []")
    case True then show ?thesis by simp
  next
    case False
    then have "?t ! (length u - 1) = last u" by (simp add: nth_append last_conv_nth)
    with u False show ?thesis by simp
  qed
  have b1: "word_boundary ?t (length u)"
    unfolding word_boundary_def using cur h' prev by simp
  have e_prev: "length u + n < length ?t \<and> ?t ! (length u + n) = k' ! n"
    using len n by (simp add: nth_append)
  have e_cur: "\<not> (length u + Suc n < length ?t \<and> is_word_char (?t ! (length u + Suc n)))"
  proof (cases "v = []")
    case True then show ?thesis using len n by simp
  next
    case False
    then have "?t ! (length u + Suc n) = hd v" using len n by (simp add: nth_append hd_conv_nth)
    with v False show ?thesis by simp
  qed
  have b2: "word_boundary ?t (length u + length k)"
    unfolding word_boundary_def n using e_prev l' e_cur by simp
  have tk: "take (length k) (drop (length u) ?t) = k'" by (simp add: len)
  show ?thesis
    unfolding keyword_matches_at_def using b1 b2 tk ci len by simp
qed

lemma match_is_whole_word:
  assumes k: "k \<in> set DEFAULT_KEYWORDS" and m: "keyword_matches_at text i k"
  shows "whole_word_in k text"
proof -
  from default_keyword_shape[OF k] have ne: "k \<noteq> []" and h: "is_word_char (k ! 0)"
    and l: "is_word_char (k ! (length k - 1))" by simp_all
  let ?u = "take i text" and ?k' = "take (length k) (drop i text)" and ?v = "drop (i + length k) text"
  from m have b1: "word_boundary text i" and le: "i + length k \<le> length text"
    and ci: "ci_equal ?k' k" and b2: "word_boundary text (i + length k)"
    by (simp_all add: keyword_matches_at_def)
  have len: "length ?k' = length k" using le by simp
  have pos: "0 < length k" using ne by simp
  have t: "text = ?u @ ?k' @ ?v"
    by (metis append_take_drop_id drop_drop add.commute)
  have h': "is_word_char (text ! i)"
    using ci_equal_nth[OF ci, of 0] h pos le by simp
  from ne obtain n where n: "length k = Suc n" by (cases k) auto
  have l': "is_word_char (text ! (i + n))"
  proof -
    have "?k' ! n = text ! (i + n)" using le n by simp
    moreover have "n < length ?k'" using len n by simp
    from ci_equal_nth[OF ci this] have "is_word_char (?k' ! n)"
      using l n by simp
    ultimately show ?thesis by simp
  qed
  have cond_u: "?u = [] \<or> \<not> is_word_char (last ?u)"
  proof (cases "i = 0")
    case True then show ?thesis by simp
  next
    case False
    with le n have i: "0 < i" "i - 1 < length text" "i < length text" by simp_all
    from b1 h' i have "\<not> is_word_char (text ! (i - 1))" by (simp add: word_boundary_def)
    moreover have "last ?u = text ! (i - 1)"
    proof -
      from i(1) obtain j where j: "i = Suc j" by (cases i) auto
      with le n have "j < length text" by simp
      then have "take (Suc j) text = take j text @ [text ! j]" by (rule take_Suc_conv_app_nth)
      then show ?thesis by (simp add: j)
    qed
    ultimately show ?thesis by simp
  qed
  have cond_v: "?v = [] \<or> \<not> is_word_char (hd ?v)"
  proof (cases "i + length k < length text")
    case False then show ?thesis by simp
  next
    case True
    have "i + n < length text" using True n by simp
    with b2 l' True have "\<not> is_word_char (text ! (i + length k))"
      by (simp add: word_boundary_def n)
    moreover have "hd ?v = text ! (i + length k)" using True by (simp add: hd_drop_conv_nth)
    ultimately show ?thesis by simp
  qed
  show ?thesis
    unfolding whole_word_in_def using t ci cond_u cond_v by blast
qed

lemma pattern_test_whole_word:
  "pattern_test DEFAULT_KEYWORDS text \<longleftrightarrow> (\<exists>k\<in>set DEFAULT_KEYWORDS. whole_word_in k text)"
proof
  assume "pattern_test DEFAULT_KEYWORDS text"
  then obtain i k where "k \<in> set DEFAULT_KEYWORDS" "keyword_matches_at text i k"
    by (auto simp: pattern_test_iff)
  then show "\<exists>k\<in>set DEFAULT_KEYWORDS. whole_word_in k text"
    using match_is_whole_word by blast
next
  assume "\<exists>k\<in>set DEFAULT_KEYWORDS. whole_word_in k text"
  then obtain k u k' v where k: "k \<in> set DEFAULT_KEYWORDS" and t: "text = u @ k' @ v"
    and ci: "ci_equal k' k" and u: "u = [] \<or> \<not> is_word_char (last u)"
    and v: "v = [] \<or> \<not> is_word_char (hd v)"
    by (auto simp: whole_word_in_def)
  from whole_word_matches[OF k ci u v] have "keyword_matches_at text (length u) k" by (simp add: t)
  moreover have "length u \<le> length text" by (simp add: t)
  ultimately show "pattern_test DEFAULT_KEYWORDS text"
    using k by (auto simp: pattern_test_iff)
qed

text \<open>
  Claim C6, amended. For a text made of plain text (without backticks) and code
  elements (fenced blocks closed by the first fence after their opening, inline spans
  with a non-empty body without backticks), where no inline span is followed at once
  by a fenced block: keyword detection returns true exactly when some default keyword
  occurs, in any letter case, as a whole word of the remaining text, that is of the
  text without its code elements. So detection returns false when no keyword is a
  whole word of the remaining text, whatever the code elements hold; it returns true
  when a keyword stands in the remaining text between non-word characters (or the
  ends of the remaining text), whatever its letter case; and a keyword that is only
  part of a longer word of the remaining text does not trigger detection.
\<close>

theorem keyword_detection_reads_plain_text:
  assumes "plain_text p0" and "well_formed segs"
  shows "detectMemoryKeyword (p0 @ render segs) None \<longleftrightarrow>
           (\<exists>k\<in>set DEFAULT_KEYWORDS. whole_word_in k (plain_of p0 segs))"
  using removeCodeBlocks_segments[OF assms]
  by (simp add: detectMemoryKeyword_def pattern_test_whole_word)


text \<open>
  Claim C6 as stated fails, in both directions. The first text is the inline span
  \<^verbatim>\<open>`remember`\<close> followed at once by the fenced block \<^verbatim>\<open>```x```\<close>, seventeen characters
  with four backticks in the middle; the keyword occurs once, inside the span. The
  fence pass runs first: it finds three backticks at the span's closing backtick,
  pairs them with the closing fence of the block and removes everything between, the
  span is no longer closed, and detection returns true. In the second text the
  keyword occurs only inside an inline span, but the plain text around the span reads
  \<open>remember\<close> once the span is removed, and detection returns true. In the third text
  the keyword stands outside code as a whole word, before an inline span: with the
  span removed it has become part of a longer word, and detection returns false.
\<close>

theorem keyword_detection_counterexample:
  "render [(Inline ''remember'', ''''), (Fenced ''x'', '''')] = ''`remember````x```'' \<and>
   detectMemoryKeyword (render [(Inline ''remember'', ''''), (Fenced ''x'', '''')]) None \<and>
   detectMemoryKeyword (''remem'' @ render [(Inline ''remember'', ''ber'')]) None \<and>
   \<not> detectMemoryKeyword (''remember'' @ render [(Inline ''x'', ''ed'')]) None"
  by code_simp

text \<open>
  The theorem at the specification's examples: a keyword in an inline span, a keyword
  in a fenced block next to an upper-case keyword in the plain text; at a text whose
  code elements touch (a span, a span, a fenced block, a fenced block, a span), each
  holding a keyword; and the longer word \<open>remembered\<close>.
\<close>

theorem keyword_detection_reads_plain_text_witness:
  "plain_text ''Use the '' \<and> well_formed [(Inline ''remember'', '' function'')] \<and>
   \<not> detectMemoryKeyword (''Use the '' @ render [(Inline ''remember'', '' function'')]) None \<and>
   \<not> (\<exists>k\<in>set DEFAULT_KEYWORDS. whole_word_in k (plain_of ''Use the '' [(Inline ''remember'', '' function'')])) \<and>
   plain_text ''I will '' \<and> well_formed [(Fenced ''remember'', '' but DON'T FORGET it'')] \<and>
   whole_word_in ''don't forget'' (plain_of ''I will '' [(Fenced ''remember'', '' but DON'T FORGET it'')]) \<and>
   detectMemoryKeyword (''I will '' @ render [(Fenced ''remember'', '' but DON'T FORGET it'')]) None \<and>
   plain_text ''see '' \<and>
   well_formed [(Inline ''remember'', ''''), (Inline ''memorize'', '' ''), (Fenced ''take note'', ''''),
                (Fenced ''jot down'', ''''), (Inline ''save this'', '' there'')] \<and>
   \<not> detectMemoryKeyword (''see '' @ render [(Inline ''remember'', ''''), (Inline ''memorize'', '' ''),
        (Fenced ''take note'', ''''), (Fenced ''jot down'', ''''), (Inline ''save this'', '' there'')]) None \<and>
   \<not> (\<exists>k\<in>set DEFAULT_KEYWORDS. whole_word_in k (plain_of ''see '' [(Inline ''remember'', ''''),
        (Inline ''memorize'', '' ''), (Fenced ''take note'', ''''), (Fenced ''jot down'', ''''),
        (Inline ''save this'', '' there'')])) \<and>
   \<not> detectMemoryKeyword ''I remembered it'' None"
proof -
  have p1: "plain_text ''Use the ''" by code_simp
  have w1: "well_formed [(Inline ''remember'', '' function'')]" by code_simp
  have d1: "\<not> detectMemoryKeyword (''Use the '' @ render [(Inline ''remember'', '' function'')]) None"
    by code_simp
  have n1: "\<not> (\<exists>k\<in>set DEFAULT_KEYWORDS. whole_word_in k (plain_of ''Use the '' [(Inline ''remember'', '' function'')]))"
    using keyword_detection_reads_plain_text[OF p1 w1] d1 by simp
  have p2: "plain_text ''I will ''" by code_simp
  have w2: "well_formed [(Fenced ''remember'', '' but DON'T FORGET it'')]" by code_simp
  have k2: "''don't forget'' \<in> set DEFAULT_KEYWORDS" by (simp add: DEFAULT_KEYWORDS_def)
  have "plain_of ''I will '' [(Fenced ''remember'', '' but DON'T FORGET it'')] =
        ''I will  but '' @ ''DON'T FORGET'' @ '' it''" by (simp add: plain_of_def)
  moreover have "ci_equal ''DON'T FORGET'' ''don't forget''" by code_simp
  moreover have "\<not> is_word_char (last ''I will  but '')" "\<not> is_word_char (hd '' it'')" by code_simp+
  ultimately have ww: "whole_word_in ''don't forget'' (plain_of ''I will '' [(Fenced ''remember'', '' but DON'T FORGET it'')])"
    unfolding whole_word_in_def by blast
  have d2: "detectMemoryKeyword (''I will '' @ render [(Fenced ''remember'', '' but DON'T FORGET it'')]) None"
    using keyword_detection_reads_plain_text[OF p2 w2] k2 ww by blast
  have p3: "plain_text ''see ''" by code_simp
  have w3: "well_formed [(Inline ''remember'', ''''), (Inline ''memorize'', '' ''), (Fenced ''take note'', ''''),
                (Fenced ''jot down'', ''''), (Inline ''save this'', '' there'')]" by code_simp
  have d3: "\<not> detectMemoryKeyword (''see '' @ render [(Inline ''remember'', ''''), (Inline ''memorize'', '' ''),
        (Fenced ''take note'', ''''), (Fenced ''jot down'', ''''), (Inline ''save this'', '' there'')]) None"
    by code_simp
  have n3: "\<not> (\<exists>k\<in>set DEFAULT_KEYWORDS. whole_word_in k (plain_of ''see '' [(Inline ''remember'', ''''),
        (Inline ''memorize'', '' ''), (Fenced ''take note'', ''''), (Fenced ''jot down'', ''''),
        (Inline ''save this'', '' there'')]))"
    using keyword_detection_reads_plain_text[OF p3 w3] d3 by simp
  have d4: "\<not> detectMemoryKeyword ''I remembered it'' None" by code_simp
  from p1 w1 d1 n1 p2 w2 ww d2 p3 w3 d3 n3 d4 show ?thesis by (intro conjI)
qed

end
